theory Spec2Isabelle
  imports Complex_Main "HOL-Library.Word"
begin

unbundle bit_operations_syntax

section \<open>The frame buffer (lcd.c)\<close>

text \<open>
  \<^verbatim>\<open>framebuffer\<close> is an array of 1024 \<^verbatim>\<open>unsigned char\<close>, declared \<^verbatim>\<open>extern\<close> in lcd.c.
  It is modelled as a list of bytes that the drawing function takes and returns.
\<close>

type_synonym uint8_t = "8 word"

text \<open>
  \<^verbatim>\<open>lcdDrawPixel\<close> (lcd.c, 358-411). The index \<^verbatim>\<open>((y>>3)<<7) + x\<close> is computed after the
  integer promotion of \<^verbatim>\<open>y\<close> and \<^verbatim>\<open>x\<close>, hence on naturals; the mask \<^verbatim>\<open>1 << (y & 0x07)\<close>
  is at most 128 and is stored back into a byte.
\<close>

definition lcdDrawPixel :: "uint8_t \<Rightarrow> uint8_t \<Rightarrow> uint8_t list \<Rightarrow> uint8_t list" where
  "lcdDrawPixel x y framebuffer =
     (if x > 127 \<or> y > 63 then framebuffer
      else
        let y' = 63 - y;
            idx = push_bit 7 (drop_bit 3 (unat y')) + unat x
        in framebuffer[idx := (framebuffer ! idx) OR push_bit (unat (y' AND 0x07)) 1])"

section \<open>Constants (gamedefs.h)\<close>

text \<open>
  The macros of gamedefs.h. They are integer literals that the C code uses at type
  \<^verbatim>\<open>int\<close>, \<^verbatim>\<open>uint8_t\<close> and \<^verbatim>\<open>float\<close>, so they are numerals of any numeric type here.
\<close>

abbreviation (input) SCREEN_WIDTH :: "'a::numeral" where "SCREEN_WIDTH \<equiv> 128"
abbreviation (input) SCREEN_HEIGHT :: "'a::numeral" where "SCREEN_HEIGHT \<equiv> 64"
abbreviation (input) ALIEN_WIDTH :: "'a::numeral" where "ALIEN_WIDTH \<equiv> 8"
abbreviation (input) ALIEN_HEIGHT :: "'a::numeral" where "ALIEN_HEIGHT \<equiv> 8"
abbreviation (input) SHIP_WIDTH :: "'a::numeral" where "SHIP_WIDTH \<equiv> 8"
abbreviation (input) SHIP_HEIGHT :: "'a::numeral" where "SHIP_HEIGHT \<equiv> 8"
abbreviation (input) SHIP_X_MOVE :: "'a::numeral" where "SHIP_X_MOVE \<equiv> 2"
abbreviation (input) ENEMY_WAIT_BETWEEN_FIRE :: "'a::numeral" where "ENEMY_WAIT_BETWEEN_FIRE \<equiv> 5"
abbreviation (input) PLAYER_WAIT_BETWEEN_FIRE :: "'a::numeral" where "PLAYER_WAIT_BETWEEN_FIRE \<equiv> 10"
abbreviation (input) ROW1_ENEMY_COUNT :: "'a::numeral" where "ROW1_ENEMY_COUNT \<equiv> 5"
abbreviation (input) ROW2_ENEMY_COUNT :: "'a::numeral" where "ROW2_ENEMY_COUNT \<equiv> 4"
abbreviation (input) ENEMY_BULLET_SPEED :: "'a::numeral" where "ENEMY_BULLET_SPEED \<equiv> 1"
abbreviation (input) SHIP_BULL_SPEED :: "'a::numeral" where "SHIP_BULL_SPEED \<equiv> 1"
abbreviation (input) ALIEN_BETWEEN_OFFSET :: "'a::numeral" where "ALIEN_BETWEEN_OFFSET \<equiv> 18"
abbreviation (input) ALIEN_INCREASE_SPEED_BY :: rat where "ALIEN_INCREASE_SPEED_BY \<equiv> 6 / 5"
abbreviation (input) ALIEN_INCREASE_Y_BY :: "'a::numeral" where "ALIEN_INCREASE_Y_BY \<equiv> 4"
abbreviation (input) MAX_PLAYER_BULLETS :: "'a::numeral" where "MAX_PLAYER_BULLETS \<equiv> 20"
abbreviation (input) MAX_ENEMY_BULLETS :: "'a::numeral" where "MAX_ENEMY_BULLETS \<equiv> 20"
abbreviation (input) ENEMY_COUNT :: "'a::numeral" where
  "ENEMY_COUNT \<equiv> ROW1_ENEMY_COUNT + ROW2_ENEMY_COUNT"
abbreviation (input) ALIVE :: "'a::numeral" where "ALIVE \<equiv> 7"
abbreviation (input) START_DYING :: uint8_t where "START_DYING \<equiv> ALIVE - 1"

section \<open>Floating point as a parameter\<close>

text \<open>
  \<^verbatim>\<open>enemyX\<close>, \<^verbatim>\<open>enemyY\<close> and \<^verbatim>\<open>enemyDX\<close> are C \<^verbatim>\<open>float\<close>s. Their arithmetic is not fixed
  here: the game functions take the operations they use as a parameter \<open>F\<close>, over any type
  \<open>'f\<close> of float values, so that what is proved for every \<open>F\<close> holds whatever the rounding.
  \<open>f_lit\<close> reads a decimal literal such as \<^verbatim>\<open>0.5f\<close>, \<open>f_int\<close> is the conversion of an
  \<^verbatim>\<open>int\<close> operand, \<open>f_trunc\<close> is the cast \<^verbatim>\<open>(int)\<close>.
\<close>

record 'f float_ops =
  f_lit :: "rat \<Rightarrow> 'f"
  f_int :: "int \<Rightarrow> 'f"
  f_neg :: "'f \<Rightarrow> 'f"
  f_add :: "'f \<Rightarrow> 'f \<Rightarrow> 'f"
  f_mul :: "'f \<Rightarrow> 'f \<Rightarrow> 'f"
  f_trunc :: "'f \<Rightarrow> int"

text \<open>
  Arithmetic without rounding, on the rationals, with the cast truncating towards zero.
  It is used to run the game on concrete states.
\<close>

definition exact :: "rat float_ops" where
  "exact = \<lparr> f_lit = (\<lambda>q. q), f_int = of_int, f_neg = uminus, f_add = (+), f_mul = (*),
             f_trunc = (\<lambda>q. if q < 0 then - \<lfloor>- q\<rfloor> else \<lfloor>q\<rfloor>) \<rparr>"

section \<open>Game data (main.c, 25-40)\<close>

text \<open>
  The static variables of main.c. The arrays are lists; a state is well formed when they
  have the lengths of their declarations. The frame buffer is not part of this record:
  the drawing calls of \<^verbatim>\<open>gameLoop\<close> only write the frame buffer, which the game logic never
  reads, and they are left out of the functions below.
\<close>

record 'f game =
  lives :: uint8_t
  shipAlive :: uint8_t
  shipX :: uint8_t
  shipY :: uint8_t
  enemyX :: 'f
  enemyY :: 'f
  enemyDX :: 'f
  enemyAlive :: "uint8_t list"
  enemyRemaining :: uint8_t
  currBulletId :: uint8_t
  bulletWait :: uint8_t
  bulletX :: "uint8_t list"
  bulletY :: "uint8_t list"
  currEnemyBulletId :: uint8_t
  enemyBulletWait :: uint8_t
  enemyBulletX :: "uint8_t list"
  enemyBulletY :: "uint8_t list"

definition wellformed :: "'f game \<Rightarrow> bool" where
  "wellformed s \<longleftrightarrow>
     length (enemyAlive s) = ENEMY_COUNT
     \<and> length (bulletX s) = MAX_PLAYER_BULLETS \<and> length (bulletY s) = MAX_PLAYER_BULLETS
     \<and> length (enemyBulletX s) = MAX_ENEMY_BULLETS \<and> length (enemyBulletY s) = MAX_ENEMY_BULLETS"

text \<open>
  What one call of \<^verbatim>\<open>gameLoop\<close> reads from outside: the three buttons, each sampled once,
  and the value \<^verbatim>\<open>rand()\<close> returns if it is called (a non-negative \<^verbatim>\<open>int\<close>).
\<close>

record input =
  btnLeft :: bool
  btnRight :: bool
  btnFire :: bool
  rnd :: nat

text \<open>A block of \<^verbatim>\<open>gameLoop\<close> either falls through or executes \<^verbatim>\<open>return\<close>.\<close>

datatype ('r, 'c) flow = Return 'r | Continue 'c

fun forEach :: "('i \<Rightarrow> 'c \<Rightarrow> ('r, 'c) flow) \<Rightarrow> 'i list \<Rightarrow> 'c \<Rightarrow> ('r, 'c) flow" where
  "forEach body [] c = Continue c"
| "forEach body (i # is) c =
     (case body i c of Return r \<Rightarrow> Return r | Continue c' \<Rightarrow> forEach body is c')"

section \<open>Reset and game over (main.c, 71-115)\<close>

definition gameReset :: "'f float_ops \<Rightarrow> 'f game" where
  "gameReset F =
     \<lparr> lives = 3, shipAlive = ALIVE, shipX = 60, shipY = 50,
       enemyX = f_lit F 10, enemyY = f_lit F 0, enemyDX = f_lit F (1 / 2),
       enemyAlive = replicate ENEMY_COUNT ALIVE,
       enemyRemaining = ENEMY_COUNT,
       currBulletId = 0, bulletWait = 0,
       bulletX = replicate MAX_PLAYER_BULLETS 0, bulletY = replicate MAX_PLAYER_BULLETS 0,
       currEnemyBulletId = 0, enemyBulletWait = ENEMY_WAIT_BETWEEN_FIRE,
       enemyBulletX = replicate MAX_ENEMY_BULLETS 0,
       enemyBulletY = replicate MAX_ENEMY_BULLETS 0 \<rparr>"

text \<open>
  \<^verbatim>\<open>gameOver\<close> resets the game, prints three lines of text and waits until the keys are
  released and a key is pressed. Only the reset changes the game data: the function gives
  the data with which the call returns, when it returns.
\<close>

definition gameOver :: "'f float_ops \<Rightarrow> 'f game \<Rightarrow> 'f game" where
  "gameOver F s = gameReset F"

section \<open>One tick (main.c, 142-658)\<close>

text \<open>Lines 151-159: the ship moves left and right.\<close>

definition moveShip :: "input \<Rightarrow> 'f game \<Rightarrow> 'f game" where
  "moveShip inp s =
     (let s1 = (if btnLeft inp then
                  (if shipX s > 0 then s\<lparr>shipX := shipX s - SHIP_X_MOVE\<rparr> else s)
                else s);
          s2 = (if btnRight inp then
                  (if uint (shipX s1) < SCREEN_WIDTH - SHIP_WIDTH
                   then s1\<lparr>shipX := shipX s1 + SHIP_X_MOVE\<rparr> else s1)
                else s1)
      in s2)"

text \<open>
  Lines 177-199: the body of the player's shot. The cursor is an index into arrays of 20
  elements; it is below 20 after reset and after every shot.
\<close>

definition fireBullet :: "'f game \<Rightarrow> 'f game" where
  "fireBullet s =
     s\<lparr> bulletX := (bulletX s)[unat (currBulletId s) := shipX s + SHIP_WIDTH div 2],
        bulletY := (bulletY s)[unat (currBulletId s) := shipY s],
        currBulletId := (currBulletId s + 1) mod MAX_PLAYER_BULLETS,
        bulletWait := PLAYER_WAIT_BETWEEN_FIRE \<rparr>"

text \<open>Lines 163-200: the player's cooldown and shot.\<close>

definition playerFire :: "input \<Rightarrow> 'f game \<Rightarrow> 'f game" where
  "playerFire inp s =
     (let s1 = (if bulletWait s > 0 then s\<lparr>bulletWait := bulletWait s - 1\<rparr> else s)
      in if btnFire inp \<and> bulletWait s1 = 0 then fireBullet s1 else s1)"

text \<open>Lines 227-269: the ship's flash countdown, the loss of a life, the end of the game.\<close>

definition tickShipFlash :: "'f float_ops \<Rightarrow> 'f game \<Rightarrow> ('f game, 'f game) flow" where
  "tickShipFlash F s =
     (let s1 = (if shipAlive s > 0 \<and> shipAlive s < ALIVE
                then s\<lparr>shipAlive := shipAlive s - 1\<rparr> else s)
      in if shipAlive s1 = 0 then
           (if lives s1 > 1 then
              Continue (s1\<lparr> lives := lives s1 - 1, shipAlive := ALIVE,
                            bulletWait := 0, enemyBulletWait := ENEMY_WAIT_BETWEEN_FIRE \<rparr>)
            else Return (gameOver F s1))
         else Continue s1)"

text \<open>Lines 278-282: the player has won.\<close>

definition checkWin :: "'f float_ops \<Rightarrow> 'f game \<Rightarrow> ('f game, 'f game) flow" where
  "checkWin F s = (if enemyRemaining s \<le> 0 then Return (gameOver F s) else Continue s)"

text \<open>
  Lines 146 and 319-325: the local \<^verbatim>\<open>shipToFire\<close> starts at -1; when the enemy cooldown
  reaches 0 it becomes \<^verbatim>\<open>rand() % enemyRemaining\<close>.
\<close>

definition selectFirer :: "input \<Rightarrow> 'f game \<Rightarrow> int \<times> 'f game" where
  "selectFirer inp s =
     (if enemyBulletWait s > 0 then
        (let s1 = s\<lparr>enemyBulletWait := enemyBulletWait s - 1\<rparr>
         in if enemyBulletWait s1 = 0 \<and> enemyRemaining s1 > 0
            then (int (rnd inp) mod uint (enemyRemaining s1),
                  s1\<lparr>enemyBulletWait := ENEMY_WAIT_BETWEEN_FIRE\<rparr>)
            else (- 1, s1))
      else (- 1, s))"

text \<open>Lines 388-398 and 528-533: the selected alien at \<open>(x, y)\<close> shoots.\<close>

definition enemyFire :: "int \<Rightarrow> int \<Rightarrow> 'f game \<Rightarrow> 'f game" where
  "enemyFire x y s =
     s\<lparr> enemyBulletY := (enemyBulletY s)[unat (currEnemyBulletId s) := word_of_int (y + ALIEN_HEIGHT)],
        enemyBulletX := (enemyBulletX s)[unat (currEnemyBulletId s) := word_of_int (x + ALIEN_WIDTH div 2)],
        currEnemyBulletId := (currEnemyBulletId s + 1) mod MAX_ENEMY_BULLETS,
        enemyBulletWait := ENEMY_WAIT_BETWEEN_FIRE \<rparr>"

text \<open>Lines 408 and 536: the alien at \<open>x\<close> touches an edge of the screen.\<close>

definition touchesEdge :: "int \<Rightarrow> bool" where
  "touchesEdge x \<longleftrightarrow> x \<le> 0 \<or> x + ALIEN_WIDTH \<ge> SCREEN_WIDTH"

text \<open>Lines 423-424 and 537-538: the formation turns, speeds up and descends.\<close>

definition bounce :: "'f float_ops \<Rightarrow> 'f game \<Rightarrow> 'f game" where
  "bounce F s =
     s\<lparr> enemyDX := f_mul F (enemyDX s) (f_neg F (f_lit F ALIEN_INCREASE_SPEED_BY)),
        enemyY := f_add F (enemyY s) (f_int F ALIEN_INCREASE_Y_BY) \<rparr>"

text \<open>Lines 470-471 and 547-548: the bullet \<open>(bx, by)\<close> is within the box of the alien at \<open>(x, y)\<close>.\<close>

definition inAlienBox :: "int \<Rightarrow> int \<Rightarrow> uint8_t \<Rightarrow> uint8_t \<Rightarrow> bool" where
  "inAlienBox x y bx by \<longleftrightarrow>
     x \<le> uint bx \<and> uint bx \<le> x + ALIEN_WIDTH \<and> y \<le> uint by \<and> uint by \<le> y + ALIEN_HEIGHT"

text \<open>Lines 470-490 and 547-551: the body of the loop over the player's bullets.\<close>

definition hitBullet :: "nat \<Rightarrow> int \<Rightarrow> int \<Rightarrow> nat \<Rightarrow> 'f game \<Rightarrow> 'f game" where
  "hitBullet k x y j s =
     (if inAlienBox x y (bulletX s ! j) (bulletY s ! j)
      then s\<lparr> enemyAlive := (enemyAlive s)[k := START_DYING],
              bulletX := (bulletX s)[j := 0],
              bulletY := (bulletY s)[j := 0] \<rparr>
      else s)"

text \<open>Lines 459-491 and 546-552: alien \<open>k\<close>, drawn at \<open>(x, y)\<close>, against every player bullet.\<close>

definition checkAlienHit :: "nat \<Rightarrow> int \<Rightarrow> int \<Rightarrow> 'f game \<Rightarrow> 'f game" where
  "checkAlienHit k x y s = fold (hitBullet k x y) [0..<MAX_PLAYER_BULLETS] s"

text \<open>Lines 501-506 and 555-560: the flash countdown of alien \<open>k\<close>.\<close>

definition tickAlienFlash :: "nat \<Rightarrow> 'f game \<Rightarrow> 'f game" where
  "tickAlienFlash k s =
     (if enemyAlive s ! k > 0 \<and> enemyAlive s ! k < ALIVE then
        (let s1 = s\<lparr>enemyAlive := (enemyAlive s)[k := enemyAlive s ! k - 1]\<rparr>
         in if enemyAlive s1 ! k = 0 then s1\<lparr>enemyRemaining := enemyRemaining s1 - 1\<rparr> else s1)
      else s)"

text \<open>
  Lines 354-491 and 525-552: what is done for a drawn alien, slot \<open>k\<close> at \<open>(x, y)\<close>. The two
  rows have the same text in the source, up to the slot and the coordinates.
  \<^verbatim>\<open>shipToFire-- == 0\<close> compares and then decrements.
\<close>

definition drawnAlien ::
  "'f float_ops \<Rightarrow> nat \<Rightarrow> int \<Rightarrow> int \<Rightarrow> int \<times> 'f game \<Rightarrow> ('f game, int \<times> 'f game) flow" where
  "drawnAlien F k x y cs =
     (let shipToFire = fst cs; s = snd cs;
          s1 = (if shipToFire = 0 then enemyFire x y s else s);
          shipToFire' = shipToFire - 1;
          s2 = (if touchesEdge x then bounce F s1 else s1)
      in if y + ALIEN_HEIGHT \<ge> SCREEN_HEIGHT then Return (gameOver F s2)
         else Continue (shipToFire', checkAlienHit k x y s2))"

text \<open>Lines 351-352 and 522-523: where the aliens of the two rows are.\<close>

definition row1X :: "'f float_ops \<Rightarrow> 'f game \<Rightarrow> nat \<Rightarrow> int" where
  "row1X F s i = f_trunc F (f_add F (enemyX s) (f_int F (ALIEN_BETWEEN_OFFSET * int i)))"

definition row1Y :: "'f float_ops \<Rightarrow> 'f game \<Rightarrow> int" where
  "row1Y F s = f_trunc F (f_add F (enemyY s) (f_int F 0))"

definition row2X :: "'f float_ops \<Rightarrow> 'f game \<Rightarrow> nat \<Rightarrow> int" where
  "row2X F s i =
     f_trunc F (f_add F (f_add F (enemyX s) (f_int F 9)) (f_int F (ALIEN_BETWEEN_OFFSET * int i)))"

definition row2Y :: "'f float_ops \<Rightarrow> 'f game \<Rightarrow> int" where
  "row2Y F s = f_trunc F (f_add F (enemyY s) (f_int F ALIEN_HEIGHT))"

text \<open>Lines 344-507: the body of the loop over the first row.\<close>

definition row1Body ::
  "'f float_ops \<Rightarrow> nat \<Rightarrow> int \<times> 'f game \<Rightarrow> ('f game, int \<times> 'f game) flow" where
  "row1Body F i cs =
     (case (if enemyAlive (snd cs) ! i mod 2 = 1
            then drawnAlien F i (row1X F (snd cs) i) (row1Y F (snd cs)) cs
            else Continue cs) of
        Return r \<Rightarrow> Return r
      | Continue cs' \<Rightarrow> Continue (fst cs', tickAlienFlash i (snd cs')))"

text \<open>Lines 516-561: the body of the loop over the second row, \<^verbatim>\<open>k = ROW1_ENEMY_COUNT + i\<close>.\<close>

definition row2Body ::
  "'f float_ops \<Rightarrow> nat \<Rightarrow> int \<times> 'f game \<Rightarrow> ('f game, int \<times> 'f game) flow" where
  "row2Body F i cs =
     (let k = ROW1_ENEMY_COUNT + i in
      case (if enemyAlive (snd cs) ! k mod 2 = 1
            then drawnAlien F k (row2X F (snd cs) i) (row2Y F (snd cs)) cs
            else Continue cs) of
        Return r \<Rightarrow> Return r
      | Continue cs' \<Rightarrow> Continue (fst cs', tickAlienFlash k (snd cs')))"

text \<open>Lines 344-561: the two loops, one after the other.\<close>

definition alienSweep ::
  "'f float_ops \<Rightarrow> int \<times> 'f game \<Rightarrow> ('f game, int \<times> 'f game) flow" where
  "alienSweep F cs =
     (case forEach (row1Body F) [0..<ROW1_ENEMY_COUNT] cs of
        Return r \<Rightarrow> Return r
      | Continue cs' \<Rightarrow> forEach (row2Body F) [0..<ROW2_ENEMY_COUNT] cs')"

text \<open>Line 566: the formation moves.\<close>

definition moveFormation :: "'f float_ops \<Rightarrow> 'f game \<Rightarrow> 'f game" where
  "moveFormation F s = s\<lparr>enemyX := f_add F (enemyX s) (enemyDX s)\<rparr>"

text \<open>Lines 587-618: the body of the loop that advances the player's bullets.\<close>

definition playerBulletStep :: "nat \<Rightarrow> 'f game \<Rightarrow> 'f game" where
  "playerBulletStep i s =
     (if bulletX s ! i \<noteq> 0 \<and> bulletY s ! i \<noteq> 0 then
        (let s1 = s\<lparr>bulletY := (bulletY s)[i := bulletY s ! i - SHIP_BULL_SPEED]\<rparr>
         in if bulletY s1 ! i = 0 \<or> uint (bulletY s1 ! i) > SCREEN_HEIGHT
            then s1\<lparr>bulletX := (bulletX s1)[i := 0], bulletY := (bulletY s1)[i := 0]\<rparr>
            else s1)
      else s)"

definition advancePlayerBullets :: "'f game \<Rightarrow> 'f game" where
  "advancePlayerBullets s = fold playerBulletStep [0..<MAX_PLAYER_BULLETS] s"

text \<open>Lines 640-641: the bullet \<open>(bx, by)\<close> is within the box of the ship.\<close>

definition inShipBox :: "'f game \<Rightarrow> uint8_t \<Rightarrow> uint8_t \<Rightarrow> bool" where
  "inShipBox s bx by \<longleftrightarrow>
     uint (shipX s) \<le> uint bx \<and> uint bx \<le> uint (shipX s) + SHIP_WIDTH
     \<and> uint (shipY s) \<le> uint by \<and> uint by \<le> uint (shipY s) + SHIP_HEIGHT"

text \<open>Lines 635-656: the body of the loop that advances the aliens' bullets.\<close>

definition enemyBulletStep :: "nat \<Rightarrow> 'f game \<Rightarrow> 'f game" where
  "enemyBulletStep i s =
     (if enemyBulletX s ! i \<noteq> 0 \<and> enemyBulletY s ! i \<noteq> 0 then
        (let s1 = s\<lparr>enemyBulletY := (enemyBulletY s)[i := enemyBulletY s ! i + ENEMY_BULLET_SPEED]\<rparr>;
             s2 = (if inShipBox s1 (enemyBulletX s1 ! i) (enemyBulletY s1 ! i) then
                     (let s' = (if shipAlive s1 = ALIVE then s1\<lparr>shipAlive := START_DYING\<rparr> else s1)
                      in s'\<lparr> enemyBulletX := (enemyBulletX s')[i := 0],
                             enemyBulletY := (enemyBulletY s')[i := 0] \<rparr>)
                   else s1)
         in if uint (enemyBulletY s2 ! i) \<ge> SCREEN_HEIGHT
            then s2\<lparr> enemyBulletX := (enemyBulletX s2)[i := 0],
                     enemyBulletY := (enemyBulletY s2)[i := 0] \<rparr>
            else s2)
      else s)"

definition advanceEnemyBullets :: "'f game \<Rightarrow> 'f game" where
  "advanceEnemyBullets s = fold enemyBulletStep [0..<MAX_ENEMY_BULLETS] s"

text \<open>
  \<^verbatim>\<open>gameLoop\<close>, lines 142-658, with its four \<^verbatim>\<open>return\<close>s. \<open>gameLoopFlow\<close> tells whether the
  call returned after \<^verbatim>\<open>gameOver\<close> or ran to its end; \<open>gameLoop\<close> is the state it leaves.
\<close>

definition gameLoopFlow :: "'f float_ops \<Rightarrow> input \<Rightarrow> 'f game \<Rightarrow> ('f game, 'f game) flow" where
  "gameLoopFlow F inp s =
     (case tickShipFlash F (playerFire inp (moveShip inp s)) of
        Return r \<Rightarrow> Return r
      | Continue s3 \<Rightarrow>
     (case checkWin F s3 of
        Return r \<Rightarrow> Return r
      | Continue s4 \<Rightarrow>
     (case alienSweep F (selectFirer inp s4) of
        Return r \<Rightarrow> Return r
      | Continue cs \<Rightarrow>
          Continue (advanceEnemyBullets (advancePlayerBullets (moveFormation F (snd cs)))))))"

definition gameLoop :: "'f float_ops \<Rightarrow> input \<Rightarrow> 'f game \<Rightarrow> 'f game" where
  "gameLoop F inp s = (case gameLoopFlow F inp s of Return r \<Rightarrow> r | Continue s' \<Rightarrow> s')"

text \<open>\<^verbatim>\<open>main\<close>, lines 667-687: the game is reset and then \<^verbatim>\<open>gameLoop\<close> is called again and again.\<close>

fun run :: "'f float_ops \<Rightarrow> input list \<Rightarrow> 'f game \<Rightarrow> 'f game" where
  "run F [] s = s"
| "run F (inp # inps) s = run F inps (gameLoop F inp s)"

section \<open>Notions used to state the properties\<close>

text \<open>The number of alien slots whose vitality is greater than 0.\<close>

definition aliveCount :: "uint8_t list \<Rightarrow> nat" where
  "aliveCount vs = length (filter (\<lambda>v. 0 < v) vs)"

text \<open>
  What holds between two ticks: the arrays have their lengths and the two cursors are
  within them (so that the list updates and lookups of the model are the array accesses of
  the C code), the counter of remaining aliens is the number of slots with a vitality above
  0, and the ship is at an even position of at most 120.
\<close>

definition steady :: "'f game \<Rightarrow> bool" where
  "steady s \<longleftrightarrow>
     wellformed s
     \<and> currBulletId s < MAX_PLAYER_BULLETS \<and> currEnemyBulletId s < MAX_ENEMY_BULLETS
     \<and> unat (enemyRemaining s) = aliveCount (enemyAlive s)
     \<and> shipX s \<le> 120 \<and> even (unat (shipX s))"

text \<open>What the advancement loops do to one slot \<open>(x, y)\<close> of the player's and of the aliens' pool.\<close>

definition playerSlot :: "uint8_t \<times> uint8_t \<Rightarrow> uint8_t \<times> uint8_t" where
  "playerSlot b =
     (if fst b \<noteq> 0 \<and> snd b \<noteq> 0 then
        (if snd b - SHIP_BULL_SPEED = 0 \<or> uint (snd b - SHIP_BULL_SPEED) > SCREEN_HEIGHT
         then (0, 0) else (fst b, snd b - SHIP_BULL_SPEED))
      else b)"

definition enemySlot :: "'f game \<Rightarrow> uint8_t \<times> uint8_t \<Rightarrow> uint8_t \<times> uint8_t" where
  "enemySlot s b =
     (if fst b \<noteq> 0 \<and> snd b \<noteq> 0 then
        (if inShipBox s (fst b) (snd b + ENEMY_BULLET_SPEED)
            \<or> uint (snd b + ENEMY_BULLET_SPEED) \<ge> SCREEN_HEIGHT
         then (0, 0) else (fst b, snd b + ENEMY_BULLET_SPEED))
      else b)"

text \<open>
  The player shoots once from each of the ship positions \<open>xs\<close>, in this order, and nothing
  else happens in between.
\<close>

definition fireShots :: "uint8_t list \<Rightarrow> 'f game \<Rightarrow> 'f game" where
  "fireShots xs s = fold (\<lambda>x s. fireBullet (s\<lparr>shipX := x\<rparr>)) xs s"

text \<open>
  The aliens' pool with its cursor. Between \<open>s\<close> and \<open>s'\<close> no shot was written when the pool
  and the cursor are the same; one shot was written when the arrays differ at most at the
  slot under the cursor of \<open>s\<close> and the cursor has advanced by one.
\<close>

definition enemyPool :: "'f game \<Rightarrow> uint8_t list \<times> uint8_t list \<times> uint8_t" where
  "enemyPool s = (enemyBulletX s, enemyBulletY s, currEnemyBulletId s)"

definition noShot :: "'f game \<Rightarrow> 'f game \<Rightarrow> bool" where
  "noShot s s' \<longleftrightarrow> enemyPool s' = enemyPool s"

definition oneShot :: "'f game \<Rightarrow> 'f game \<Rightarrow> bool" where
  "oneShot s s' \<longleftrightarrow>
     enemyBulletX s' = (enemyBulletX s)[unat (currEnemyBulletId s)
                          := enemyBulletX s' ! unat (currEnemyBulletId s)]
     \<and> enemyBulletY s' = (enemyBulletY s)[unat (currEnemyBulletId s)
                          := enemyBulletY s' ! unat (currEnemyBulletId s)]
     \<and> currEnemyBulletId s' = (currEnemyBulletId s + 1) mod MAX_ENEMY_BULLETS"

text \<open>What the sweep has done to the pool when the counter, started at \<open>c0\<close>, is at \<open>fst cs\<close>.\<close>

definition shotsSoFar :: "int \<Rightarrow> 'f game \<Rightarrow> int \<times> 'f game \<Rightarrow> bool" where
  "shotsSoFar c0 s0 cs \<longleftrightarrow>
     fst cs \<le> c0
     \<and> (if 0 \<le> fst cs then noShot s0 (snd cs)
         else noShot s0 (snd cs) \<or> (0 \<le> c0 \<and> oneShot s0 (snd cs)))"

text \<open>
  The drawn aliens of the two rows that touch an edge of the screen, by their index in the
  row, and their number. The velocity and the descent of the formation are its course.
\<close>

definition touch1 :: "'f float_ops \<Rightarrow> 'f game \<Rightarrow> nat \<Rightarrow> bool" where
  "touch1 F s i \<longleftrightarrow> enemyAlive s ! i mod 2 = 1 \<and> touchesEdge (row1X F s i)"

definition touch2 :: "'f float_ops \<Rightarrow> 'f game \<Rightarrow> nat \<Rightarrow> bool" where
  "touch2 F s i \<longleftrightarrow>
     enemyAlive s ! (ROW1_ENEMY_COUNT + i) mod 2 = 1 \<and> touchesEdge (row2X F s i)"

definition edgeTouches :: "'f float_ops \<Rightarrow> 'f game \<Rightarrow> nat" where
  "edgeTouches F s =
     length (filter (touch1 F s) [0..<ROW1_ENEMY_COUNT])
     + length (filter (touch2 F s) [0..<ROW2_ENEMY_COUNT])"

definition course :: "'f game \<Rightarrow> 'f \<times> 'f" where
  "course s = (enemyDX s, enemyY s)"

text \<open>
  The two loops of the sweep as one loop over the slots 0 to 8: slot \<open>k\<close> is alien \<open>k\<close> of the
  first row when \<open>k < 5\<close> and alien \<open>k - 5\<close> of the second row otherwise. \<open>slotX\<close> and \<open>slotY\<close>
  are the coordinates at which the alien of a slot is drawn in a state, \<open>isDrawn\<close> is the test
  \<^verbatim>\<open>enemyAlive[k] % 2 == 1\<close>, \<open>drawnSlots\<close> lists the drawn slots in the order of the sweep,
  and \<open>touches\<close> tells whether a slot is drawn and touches an edge.
\<close>

definition slotX :: "'f float_ops \<Rightarrow> 'f game \<Rightarrow> nat \<Rightarrow> int" where
  "slotX F s k =
     (if k < ROW1_ENEMY_COUNT then row1X F s k else row2X F s (k - ROW1_ENEMY_COUNT))"

definition slotY :: "'f float_ops \<Rightarrow> 'f game \<Rightarrow> nat \<Rightarrow> int" where
  "slotY F s k = (if k < ROW1_ENEMY_COUNT then row1Y F s else row2Y F s)"

definition slotBody ::
  "'f float_ops \<Rightarrow> nat \<Rightarrow> int \<times> 'f game \<Rightarrow> ('f game, int \<times> 'f game) flow" where
  "slotBody F k =
     (if k < ROW1_ENEMY_COUNT then row1Body F k else row2Body F (k - ROW1_ENEMY_COUNT))"

definition isDrawn :: "'f game \<Rightarrow> nat \<Rightarrow> bool" where
  "isDrawn s k \<longleftrightarrow> enemyAlive s ! k mod 2 = 1"

definition drawnSlots :: "'f game \<Rightarrow> nat list" where
  "drawnSlots s = filter (isDrawn s) [0..<ENEMY_COUNT]"

definition touches :: "'f float_ops \<Rightarrow> 'f game \<Rightarrow> nat \<Rightarrow> bool" where
  "touches F s k \<longleftrightarrow> isDrawn s k \<and> touchesEdge (slotX F s k)"

text \<open>
  Between \<open>s\<close> and \<open>s'\<close> one shot was written, and its x is that of a bullet of the alien in
  slot \<open>k\<close>; or, more precisely, the pool of \<open>s'\<close> is the one that the shot of the alien in
  slot \<open>k\<close>, drawn where it is in \<open>s\<close>, leaves.
\<close>

definition shotFrom :: "'f float_ops \<Rightarrow> nat \<Rightarrow> 'f game \<Rightarrow> 'f game \<Rightarrow> bool" where
  "shotFrom F k s s' \<longleftrightarrow>
     enemyBulletX s' = (enemyBulletX s)[unat (currEnemyBulletId s)
                          := word_of_int (slotX F s k + ALIEN_WIDTH div 2)]
     \<and> oneShot s s'"

definition exactShot :: "'f float_ops \<Rightarrow> nat \<Rightarrow> 'f game \<Rightarrow> 'f game \<Rightarrow> bool" where
  "exactShot F k s s' \<longleftrightarrow>
     enemyPool s' = enemyPool (enemyFire (slotX F s k) (slotY F s k) s)"

text \<open>
  What a sweep over the slots \<open>ks\<close>, started with the counter and the state \<open>cs\<close>, has done
  to the pool: when the counter is the index of a drawn slot of \<open>ks\<close>, the alien of that slot
  has shot; otherwise no shot was written.
\<close>

definition sweepShot :: "'f float_ops \<Rightarrow> nat list \<Rightarrow> int \<times> 'f game \<Rightarrow> 'f game \<Rightarrow> bool" where
  "sweepShot F ks cs s' \<longleftrightarrow>
     (if 0 \<le> fst cs \<and> nat (fst cs) < length (filter (isDrawn (snd cs)) ks)
      then shotFrom F (filter (isDrawn (snd cs)) ks ! nat (fst cs)) (snd cs) s'
           \<and> ((\<forall>k\<in>set ks. \<not> touches F (snd cs) k) \<longrightarrow>
                exactShot F (filter (isDrawn (snd cs)) ks ! nat (fst cs)) (snd cs) s')
      else noShot (snd cs) s')"

section \<open>Sample states and inputs\<close>

text \<open>No button is pressed; \<^verbatim>\<open>rand()\<close> would return 0.\<close>

definition idle :: input where
  "idle = \<lparr> btnLeft = False, btnRight = False, btnFire = False, rnd = 0 \<rparr>"

text \<open>
  A game of 76 ticks in which the aliens hit the ship twice (\<^verbatim>\<open>rand()\<close> would return 7 in
  the first 20 ticks and 0 later) and the player, who may shoot again at once after the
  loss of the first life, shoots in the ticks 44 and 45. \<open>twoInBox\<close> is the state it leaves:
  the two bullets are at (64, 17) and (64, 18) and the formation is at 48, so that in the
  next tick alien 4, at x = 120, touches the edge, the formation descends by 4 and alien 5
  is drawn at (57, 12), with both bullets within its box.
\<close>

definition doubleShot :: "input list" where
  "doubleShot = replicate 20 (idle\<lparr>rnd := 7\<rparr>) @ replicate 23 idle
                @ replicate 2 (idle\<lparr>btnFire := True\<rparr>) @ replicate 31 idle"

definition twoInBox :: "rat game" where
  "twoInBox =
     \<lparr> lives = 1, shipAlive = 7, shipX = 60, shipY = 50,
       enemyX = 48, enemyY = 0, enemyDX = 1 / 2,
       enemyAlive = [7, 7, 7, 7, 7, 7, 7, 7, 7],
       enemyRemaining = 9,
       currBulletId = 2, bulletWait = 0,
       bulletX = [64, 64] @ replicate 18 0, bulletY = [17, 18] @ replicate 18 0,
       currEnemyBulletId = 14, enemyBulletWait = 2,
       enemyBulletX = replicate 4 0 @ [26, 28, 31, 33, 37, 40, 42, 45, 47, 50] @ replicate 6 0,
       enemyBulletY = replicate 4 0 @ [60, 55, 50, 45, 37, 32, 27, 22, 17, 12] @ replicate 6 0 \<rparr>"

text \<open>
  The state after reset with alien bullets at (10, 63) and (0, 5) and player bullets at
  (64, 30) and (70, 1); the ship is at (60, 50).
\<close>

definition strayBullets :: "rat game" where
  "strayBullets = (gameReset exact)
     \<lparr> enemyBulletX := (replicate MAX_ENEMY_BULLETS 0)[0 := 10],
       enemyBulletY := (replicate MAX_ENEMY_BULLETS 0)[0 := 63, 1 := 5],
       bulletX := (replicate MAX_PLAYER_BULLETS 0)[0 := 64, 1 := 70],
       bulletY := (replicate MAX_PLAYER_BULLETS 0)[0 := 30, 1 := 1] \<rparr>"

text \<open>The state after reset, one tick before the aliens may shoot.\<close>

definition readyToFire :: "rat game" where
  "readyToFire = (gameReset exact)\<lparr>enemyBulletWait := 1\<rparr>"



text \<open>
  A game of 44 ticks: the player moves right and shoots in the first tick and shoots again
  in the eleventh; \<^verbatim>\<open>rand()\<close> would return 0 throughout. \<open>flashingOff\<close> is the state it
  leaves, in which alien 6 has been hit and has the vitality 4, and the aliens may shoot in
  the next tick. \<open>secondHit\<close> is the state one idle tick later: alien 6 has the vitality 3
  and the player's second bullet, at (66, 15), is within its box.
\<close>

definition replay :: "input list" where
  "replay = idle\<lparr>btnRight := True, btnFire := True\<rparr> # replicate 9 idle
            @ idle\<lparr>btnFire := True\<rparr> # replicate 33 idle"

definition flashingOff :: "rat game" where
  "flashingOff =
     \<lparr> lives = 3, shipAlive = 7, shipX = 62, shipY = 50,
       enemyX = 32, enemyY = 0, enemyDX = 1 / 2,
       enemyAlive = [7, 7, 7, 7, 7, 7, 4, 7, 7],
       enemyRemaining = 9,
       currBulletId = 2, bulletWait = 0,
       bulletX = [0, 66] @ replicate 18 0, bulletY = [0, 16] @ replicate 18 0,
       currEnemyBulletId = 8, enemyBulletWait = 1,
       enemyBulletX = [16, 18, 21, 23, 26, 28, 31, 33] @ replicate 12 0,
       enemyBulletY = [48, 43, 38, 33, 28, 23, 18, 13] @ replicate 12 0 \<rparr>"

definition secondHit :: "rat game" where
  "secondHit =
     \<lparr> lives = 3, shipAlive = 7, shipX = 62, shipY = 50,
       enemyX = 65 / 2, enemyY = 0, enemyDX = 1 / 2,
       enemyAlive = [7, 7, 7, 7, 7, 7, 3, 7, 7],
       enemyRemaining = 9,
       currBulletId = 2, bulletWait = 0,
       bulletX = [0, 66] @ replicate 18 0, bulletY = [0, 15] @ replicate 18 0,
       currEnemyBulletId = 9, enemyBulletWait = 5,
       enemyBulletX = [16, 18, 21, 23, 26, 28, 31, 33, 36] @ replicate 11 0,
       enemyBulletY = [49, 44, 39, 34, 29, 24, 19, 14, 9] @ replicate 11 0 \<rparr>"

section \<open>Properties of the frame buffer\<close>

lemma flip_unat:
  fixes y :: uint8_t
  assumes "\<not> y > 63"
  shows "unat (63 - y) = 63 - unat y"
proof -
  from assms have "y \<le> 63" by simp
  then show ?thesis by (simp add: unat_sub)
qed

lemma low3_unat:
  fixes w :: uint8_t
  shows "unat (w AND 0x07) = unat w mod 8"
proof -
  have "w AND 0x07 = take_bit 3 w"
    unfolding take_bit_eq_mask by (simp add: mask_eq_exp_minus_1)
  then have "w AND 0x07 = w mod 8"
    by (simp add: take_bit_eq_mod)
  then show ?thesis by (simp add: unat_mod)
qed

lemma pixel_index:
  fixes x y :: uint8_t
  assumes "\<not> x > 127" "\<not> y > 63"
  shows "push_bit 7 (drop_bit 3 (unat (63 - y))) + unat x = ((63 - unat y) div 8) * 128 + unat x"
    and "((63 - unat y) div 8) * 128 + unat x < 1024"
proof -
  show "push_bit 7 (drop_bit 3 (unat (63 - y))) + unat x = ((63 - unat y) div 8) * 128 + unat x"
    using assms(2) by (simp add: flip_unat push_bit_eq_mult drop_bit_eq_div)
  from assms(1) have "x \<le> 127" by simp
  then have "unat x \<le> 127" by (simp add: word_le_nat_alt)
  moreover have "(63 - unat y) div 8 \<le> 7" by simp
  ultimately show "((63 - unat y) div 8) * 128 + unat x < 1024" by linarith
qed

lemma bit_or_mask:
  fixes v :: uint8_t
  assumes "b < 8" "k < 8"
  shows "bit (v OR 2 ^ k) b \<longleftrightarrow> bit v b \<or> b = k"
  using assms by (auto simp add: bit_or_iff bit_exp_iff)

text \<open>
  C6. For every coordinate pair: outside the screen (\<open>x > 127\<close> or \<open>y > 63\<close>) the buffer is
  returned as it is; inside, with \<open>y' = 63 - y\<close>, bit \<open>y' mod 8\<close> of the byte at index
  \<open>(y' div 8) * 128 + x\<close> is set, and every other bit of the 1024 bytes keeps its value
  (a bit of the result is set exactly when it was set before or it is the addressed bit;
  nothing is cleared).
\<close>

theorem lcdDrawPixel_sets_one_bit:
  assumes "length framebuffer = 1024"
  shows "length (lcdDrawPixel x y framebuffer) = 1024
    \<and> (x > 127 \<or> y > 63 \<longrightarrow> lcdDrawPixel x y framebuffer = framebuffer)
    \<and> (\<forall>i<1024. \<forall>b<8.
          bit (lcdDrawPixel x y framebuffer ! i) b \<longleftrightarrow>
            bit (framebuffer ! i) b
            \<or> (\<not> x > 127 \<and> \<not> y > 63
               \<and> i = ((63 - unat y) div 8) * 128 + unat x \<and> b = (63 - unat y) mod 8))"
proof (cases "x > 127 \<or> y > 63")
  case True
  then show ?thesis using assms by (auto simp add: lcdDrawPixel_def)
next
  case False
  then have x: "\<not> x > 127" and y: "\<not> y > 63" by simp_all
  define idx where "idx = ((63 - unat y) div 8) * 128 + unat x"
  define k where "k = (63 - unat y) mod 8"
  have k: "k < 8" by (simp add: k_def)
  have idx: "idx < 1024" unfolding idx_def by (rule pixel_index(2)[OF x y])
  have eq: "lcdDrawPixel x y framebuffer
      = framebuffer[idx := (framebuffer ! idx) OR push_bit k 1]"
    using x y pixel_index(1)[OF x y]
    by (simp add: lcdDrawPixel_def Let_def idx_def k_def low3_unat flip_unat)
  have "bit (lcdDrawPixel x y framebuffer ! i) b \<longleftrightarrow>
          bit (framebuffer ! i) b \<or> (i = idx \<and> b = k)" if "i < 1024" "b < 8" for i b
  proof (cases "i = idx")
    case True
    then show ?thesis using assms idx that k by (simp add: eq bit_or_mask)
  next
    case False
    then show ?thesis by (simp add: eq)
  qed
  then show ?thesis using x y assms by (simp add: eq idx_def k_def)
qed

theorem lcdDrawPixel_sets_one_bit_witness:
  "length (replicate 1024 (0::uint8_t)) = 1024
   \<and> bit (lcdDrawPixel 3 5 (replicate 1024 0) ! 899) 2
   \<and> \<not> bit (lcdDrawPixel 3 5 (replicate 1024 0) ! 899) 3
   \<and> lcdDrawPixel 128 5 (replicate 1024 0) = replicate 1024 0"
proof -
  have len: "length (replicate 1024 (0::uint8_t)) = 1024" by simp
  note t = lcdDrawPixel_sets_one_bit[OF len]
  have a: "bit (lcdDrawPixel 3 5 (replicate 1024 0) ! 899) 2"
    using t[of 3 5] by simp
  have b: "\<not> bit (lcdDrawPixel 3 5 (replicate 1024 0) ! 899) 3"
    using t[of 3 5] by simp
  have c: "lcdDrawPixel 128 5 (replicate 1024 0) = replicate 1024 0"
    using t[of 128 5] by simp
  from len a b c show ?thesis by blast
qed

section \<open>What holds between two ticks\<close>

lemma aliveCount_update:
  assumes "k < length vs"
  shows "aliveCount (vs[k := v]) + (if 0 < vs ! k then 1 else 0)
         = aliveCount vs + (if 0 < v then 1 else 0)"
proof -
  have a: "vs[k := v] = take k vs @ v # drop (Suc k) vs"
    using assms by (rule upd_conv_take_nth_drop)
  have b: "vs = take k vs @ vs ! k # drop (Suc k) vs"
    using assms by (rule id_take_nth_drop)
  have "aliveCount (take k vs @ v # drop (Suc k) vs) + (if 0 < vs ! k then 1 else 0)
      = aliveCount (take k vs @ vs ! k # drop (Suc k) vs) + (if 0 < v then 1 else 0)"
    by (simp add: aliveCount_def)
  then show ?thesis using a b by simp
qed

lemma aliveCount_pos:
  assumes "k < length vs" "0 < vs ! k"
  shows "0 < aliveCount vs"
proof -
  have "vs ! k \<in> set (filter (\<lambda>v. 0 < v) vs)" using assms by simp
  then show ?thesis unfolding aliveCount_def by (metis length_pos_if_in_set)
qed

lemma fold_preserves:
  assumes "\<And>i s. P s \<Longrightarrow> P (f i s)" "P s"
  shows "P (fold f is s)"
  using assms(2) by (induction "is" arbitrary: s) (simp_all add: assms(1))

lemma forEach_Continue:
  assumes "forEach body is c = Continue c'" "P c"
    and "\<And>i c c'. i \<in> set is \<Longrightarrow> P c \<Longrightarrow> body i c = Continue c' \<Longrightarrow> P c'"
  shows "P c'"
  using assms
proof (induction "is" arbitrary: c)
  case Nil
  then show ?case by simp
next
  case (Cons i "is")
  from Cons.prems(1) obtain c1 where c1: "body i c = Continue c1" "forEach body is c1 = Continue c'"
    by (auto split: flow.splits)
  have "P c1" using Cons.prems(3)[of i c c1] Cons.prems(2) c1(1) by simp
  then show ?case
    by (rule Cons.IH[OF c1(2)]) (use Cons.prems(3) in auto)
qed

lemma forEach_Return:
  assumes "forEach body is c = Return r"
    and "\<And>i c r. i \<in> set is \<Longrightarrow> body i c = Return r \<Longrightarrow> Q r"
  shows "Q r"
  using assms
proof (induction "is" arbitrary: c)
  case Nil
  then show ?case by simp
next
  case (Cons i "is")
  show ?case
  proof (cases "body i c")
    case (Return r')
    then show ?thesis using Cons.prems(1) Cons.prems(2)[of i c r'] by simp
  next
    case (Continue c1)
    then have "forEach body is c1 = Return r" using Cons.prems(1) by simp
    then show ?thesis
      by (rule Cons.IH) (use Cons.prems(2) in auto)
  qed
qed

lemma steady_gameReset: "steady (gameReset F)"
  by (simp add: steady_def wellformed_def gameReset_def aliveCount_def)

lemma gameOver_eq: "gameOver F s = gameReset F"
  by (simp add: gameOver_def)

lemma ship_left:
  fixes x :: uint8_t
  assumes "x \<le> 120" "even (unat x)" "0 < x"
  shows "x - 2 \<le> 120 \<and> even (unat (x - 2))"
proof -
  from assms(3) have "0 < unat x" by (simp add: word_less_nat_alt)
  with assms(2) have "2 \<le> unat x" by presburger
  then have "(2::uint8_t) \<le> x" by (simp add: word_le_nat_alt)
  then have u: "unat (x - 2) = unat x - 2" by (simp add: unat_sub)
  from assms(1) have "unat x \<le> 120" by (simp add: word_le_nat_alt)
  with u have "unat (x - 2) \<le> 120" by simp
  then have "x - 2 \<le> 120" by (simp add: word_le_nat_alt)
  moreover have "even (unat (x - 2))" using u assms(2) \<open>2 \<le> unat x\<close> by simp
  ultimately show ?thesis by simp
qed

lemma ship_right:
  fixes x :: uint8_t
  assumes "even (unat x)" "uint x < 128 - 8"
  shows "x + 2 \<le> 120 \<and> even (unat (x + 2))"
proof -
  have "uint x = int (unat x)" by (rule uint_nat)
  with assms(2) have "unat x < 120" by linarith
  with assms(1) have le: "unat x \<le> 118" by presburger
  then have "unat x + unat (2::uint8_t) < 2 ^ LENGTH(8)" by simp
  then have "unat (x + 2) = unat x + unat (2::uint8_t)" by (rule unat_add_lem[THEN iffD1])
  then have u: "unat (x + 2) = unat x + 2" by simp
  with le have "unat (x + 2) \<le> 120" by simp
  then have "x + 2 \<le> 120" by (simp add: word_le_nat_alt)
  moreover have "even (unat (x + 2))" using u assms(1) by simp
  ultimately show ?thesis by simp
qed

lemma steady_moveShip:
  assumes "steady s"
  shows "steady (moveShip inp s)"
proof -
  define s1 where "s1 = (if btnLeft inp then
                  (if shipX s > 0 then s\<lparr>shipX := shipX s - SHIP_X_MOVE\<rparr> else s)
                else s)"
  have s1: "steady s1"
    using assms ship_left[of "shipX s"]
    by (auto simp add: s1_def steady_def wellformed_def)
  have "steady (if btnRight inp then
                  (if uint (shipX s1) < SCREEN_WIDTH - SHIP_WIDTH
                   then s1\<lparr>shipX := shipX s1 + SHIP_X_MOVE\<rparr> else s1)
                else s1)"
    using s1 ship_right[of "shipX s1"]
    by (auto simp add: steady_def wellformed_def)
  moreover have "moveShip inp s = (if btnRight inp then
                  (if uint (shipX s1) < SCREEN_WIDTH - SHIP_WIDTH
                   then s1\<lparr>shipX := shipX s1 + SHIP_X_MOVE\<rparr> else s1)
                else s1)"
    by (simp only: moveShip_def s1_def Let_def)
  ultimately show ?thesis by simp
qed

lemma cursor_in_range:
  fixes c :: uint8_t
  shows "(c + 1) mod 20 < 20"
  by (simp add: word_mod_less_divisor)

lemma steady_playerFire:
  assumes "steady s"
  shows "steady (playerFire inp s)"
  using assms
  by (simp add: playerFire_def fireBullet_def Let_def steady_def wellformed_def cursor_in_range)

lemma steady_tickShipFlash:
  assumes "steady s" "tickShipFlash F s = Continue s'"
  shows "steady s'"
  using assms
  by (auto simp add: tickShipFlash_def Let_def steady_def wellformed_def split: if_splits)

lemma tickShipFlash_Return:
  assumes "tickShipFlash F s = Return r"
  shows "r = gameReset F"
  using assms by (auto simp add: tickShipFlash_def Let_def gameOver_def split: if_splits)

lemma checkWin_Continue:
  assumes "checkWin F s = Continue s'"
  shows "s' = s"
  using assms by (simp add: checkWin_def split: if_splits)

lemma checkWin_Return:
  assumes "checkWin F s = Return r"
  shows "r = gameReset F"
  using assms by (simp add: checkWin_def gameOver_def split: if_splits)

lemma steady_selectFirer:
  assumes "steady s"
  shows "steady (snd (selectFirer inp s))"
  using assms by (simp add: selectFirer_def Let_def steady_def wellformed_def)

lemma steady_enemyFire:
  assumes "steady s"
  shows "steady (enemyFire x y s)"
  using assms by (simp add: enemyFire_def steady_def wellformed_def cursor_in_range)

lemma steady_bounce:
  assumes "steady s"
  shows "steady (bounce F s)"
  using assms by (simp add: bounce_def steady_def wellformed_def)

lemma steady_hitBullet:
  assumes "steady s" "0 < enemyAlive s ! k" "k < ENEMY_COUNT"
  shows "steady (hitBullet k x y j s) \<and> 0 < enemyAlive (hitBullet k x y j s) ! k"
proof (cases "inAlienBox x y (bulletX s ! j) (bulletY s ! j)")
  case False
  then show ?thesis using assms by (simp add: hitBullet_def)
next
  case True
  have len: "k < length (enemyAlive s)" using assms by (simp add: steady_def wellformed_def)
  have "aliveCount ((enemyAlive s)[k := START_DYING]) = aliveCount (enemyAlive s)"
    using aliveCount_update[OF len, of START_DYING] assms(2) by simp
  then show ?thesis using True assms(1) len
    by (simp add: hitBullet_def steady_def wellformed_def)
qed

lemma steady_checkAlienHit:
  assumes "steady s" "0 < enemyAlive s ! k" "k < ENEMY_COUNT"
  shows "steady (checkAlienHit k x y s)"
proof -
  have "steady (fold (hitBullet k x y) [0..<MAX_PLAYER_BULLETS] s)
      \<and> 0 < enemyAlive (fold (hitBullet k x y) [0..<MAX_PLAYER_BULLETS] s) ! k"
    by (rule fold_preserves[where P = "\<lambda>s. steady s \<and> 0 < enemyAlive s ! k"])
       (use assms steady_hitBullet[where k = k] in blast)+
  then show ?thesis by (simp add: checkAlienHit_def)
qed

lemma steady_tickAlienFlash:
  assumes "steady s" "k < ENEMY_COUNT"
  shows "steady (tickAlienFlash k s)"
proof (cases "enemyAlive s ! k > 0 \<and> enemyAlive s ! k < ALIVE")
  case False
  then show ?thesis using assms by (auto simp add: tickAlienFlash_def)
next
  case True
  define v where "v = enemyAlive s ! k"
  have len: "k < length (enemyAlive s)" using assms by (simp add: steady_def wellformed_def)
  have pos: "0 < aliveCount (enemyAlive s)"
    using aliveCount_pos[OF len] True by simp
  have upd: "aliveCount ((enemyAlive s)[k := v - 1]) + 1
         = aliveCount (enemyAlive s) + (if 0 < v - 1 then 1 else 0)"
    using aliveCount_update[OF len, of "v - 1"] True by (simp add: v_def)
  show ?thesis
  proof (cases "v - 1 = 0")
    case True
    have "enemyRemaining s \<noteq> 0" using pos assms(1) by (auto simp add: steady_def)
    then have "unat (enemyRemaining s - 1) = unat (enemyRemaining s) - 1"
      by (rule unat_minus_one)
    then show ?thesis using True \<open>enemyAlive s ! k > 0 \<and> enemyAlive s ! k < ALIVE\<close> upd assms(1) len
      by (simp add: tickAlienFlash_def Let_def steady_def wellformed_def v_def)
  next
    case False
    then have "0 < v - 1" by (simp add: word_greater_zero_iff)
    then show ?thesis using False \<open>enemyAlive s ! k > 0 \<and> enemyAlive s ! k < ALIVE\<close> upd assms(1) len
      by (simp add: tickAlienFlash_def Let_def steady_def wellformed_def v_def)
  qed
qed

lemma odd_alive:
  fixes v :: uint8_t
  assumes "v mod 2 = 1"
  shows "0 < v"
  using assms by (cases "v = 0") (simp_all add: word_greater_zero_iff)

lemma steady_drawnAlien:
  assumes "steady (snd cs)" "0 < enemyAlive (snd cs) ! k" "k < ENEMY_COUNT"
    "drawnAlien F k x y cs = Continue cs'"
  shows "steady (snd cs')"
proof -
  define s1 where "s1 = (if fst cs = 0 then enemyFire x y (snd cs) else snd cs)"
  define s2 where "s2 = (if touchesEdge x then bounce F s1 else s1)"
  have alive: "enemyAlive s2 = enemyAlive (snd cs)"
    by (simp add: s2_def s1_def bounce_def enemyFire_def)
  have "steady s2" using assms(1) by (simp add: s2_def s1_def steady_bounce steady_enemyFire)
  then have "steady (checkAlienHit k x y s2)"
    using assms(2,3) alive by (simp add: steady_checkAlienHit)
  moreover have "snd cs' = checkAlienHit k x y s2"
    using assms(4) by (auto simp add: drawnAlien_def Let_def s2_def s1_def split: if_splits)
  ultimately show ?thesis by simp
qed

lemma drawnAlien_Return:
  assumes "drawnAlien F k x y cs = Return r"
  shows "r = gameReset F"
  using assms by (auto simp add: drawnAlien_def Let_def gameOver_def split: if_splits)

lemma steady_row1Body:
  assumes "steady (snd cs)" "i < ROW1_ENEMY_COUNT" "row1Body F i cs = Continue cs'"
  shows "steady (snd cs')"
proof (cases "enemyAlive (snd cs) ! i mod 2 = 1")
  case False
  then show ?thesis using assms by (auto simp add: row1Body_def steady_tickAlienFlash)
next
  case True
  then obtain c1 where c1: "drawnAlien F i (row1X F (snd cs) i) (row1Y F (snd cs)) cs = Continue c1"
    and cs': "cs' = (fst c1, tickAlienFlash i (snd c1))"
    using assms(3) by (auto simp add: row1Body_def split: flow.splits)
  have "steady (snd c1)"
    using steady_drawnAlien[OF assms(1) odd_alive[OF True] _ c1] assms(2) by simp
  then show ?thesis using cs' assms(2) by (simp add: steady_tickAlienFlash)
qed

lemma row1Body_Return:
  assumes "row1Body F i cs = Return r"
  shows "r = gameReset F"
  using assms by (auto simp add: row1Body_def drawnAlien_Return split: if_splits flow.splits)

lemma steady_row2Body:
  assumes "steady (snd cs)" "i < ROW2_ENEMY_COUNT" "row2Body F i cs = Continue cs'"
  shows "steady (snd cs')"
proof (cases "enemyAlive (snd cs) ! (ROW1_ENEMY_COUNT + i) mod 2 = 1")
  case False
  then show ?thesis using assms by (auto simp add: row2Body_def Let_def steady_tickAlienFlash)
next
  case True
  then obtain c1 where c1: "drawnAlien F (ROW1_ENEMY_COUNT + i) (row2X F (snd cs) i) (row2Y F (snd cs)) cs = Continue c1"
    and cs': "cs' = (fst c1, tickAlienFlash (ROW1_ENEMY_COUNT + i) (snd c1))"
    using assms(3) by (auto simp add: row2Body_def Let_def split: flow.splits)
  have "steady (snd c1)"
    using steady_drawnAlien[OF assms(1) odd_alive[OF True] _ c1] assms(2) by simp
  then show ?thesis using cs' assms(2) by (simp add: steady_tickAlienFlash)
qed

lemma row2Body_Return:
  assumes "row2Body F i cs = Return r"
  shows "r = gameReset F"
  using assms by (auto simp add: row2Body_def Let_def drawnAlien_Return split: if_splits flow.splits)

lemma steady_alienSweep:
  assumes "steady (snd cs)" "alienSweep F cs = Continue cs'"
  shows "steady (snd cs')"
proof -
  from assms(2) obtain c1 where
    r1: "forEach (row1Body F) [0..<ROW1_ENEMY_COUNT] cs = Continue c1" and
    r2: "forEach (row2Body F) [0..<ROW2_ENEMY_COUNT] c1 = Continue cs'"
    by (auto simp add: alienSweep_def split: flow.splits)
  have "steady (snd c1)"
    by (rule forEach_Continue[OF r1, where P = "\<lambda>c. steady (snd c)"])
       (use assms(1) steady_row1Body in auto)
  then show ?thesis
    by (rule forEach_Continue[OF r2, where P = "\<lambda>c. steady (snd c)"])
       (use steady_row2Body in auto)
qed

lemma alienSweep_Return:
  assumes "alienSweep F cs = Return r"
  shows "r = gameReset F"
proof (cases "forEach (row1Body F) [0..<ROW1_ENEMY_COUNT] cs")
  case (Return r')
  then have "r' = r" using assms by (simp add: alienSweep_def)
  with Return show ?thesis
    using forEach_Return[where Q = "\<lambda>r. r = gameReset F"] row1Body_Return by metis
next
  case (Continue c1)
  then have "forEach (row2Body F) [0..<ROW2_ENEMY_COUNT] c1 = Return r"
    using assms by (simp add: alienSweep_def)
  then show ?thesis
    using forEach_Return[where Q = "\<lambda>r. r = gameReset F"] row2Body_Return by metis
qed

lemma steady_moveFormation:
  assumes "steady s"
  shows "steady (moveFormation F s)"
  using assms by (simp add: moveFormation_def steady_def wellformed_def)

lemma steady_playerBulletStep:
  assumes "steady s"
  shows "steady (playerBulletStep i s)"
  using assms by (simp add: playerBulletStep_def Let_def steady_def wellformed_def)

lemma steady_enemyBulletStep:
  assumes "steady s"
  shows "steady (enemyBulletStep i s)"
  using assms by (simp add: enemyBulletStep_def Let_def steady_def wellformed_def)

lemma steady_advance:
  assumes "steady s"
  shows "steady (advanceEnemyBullets (advancePlayerBullets s))"
proof -
  have "steady (advancePlayerBullets s)"
    unfolding advancePlayerBullets_def
    by (rule fold_preserves) (use assms steady_playerBulletStep in auto)
  then show ?thesis
    unfolding advanceEnemyBullets_def
    by (rule fold_preserves[rotated]) (use steady_enemyBulletStep in auto)
qed

lemma steady_gameLoop:
  assumes "steady s"
  shows "steady (gameLoop F inp s)"
proof (cases "gameLoopFlow F inp s")
  case (Return r)
  then have "r = gameReset F"
    by (auto simp add: gameLoopFlow_def split: flow.splits
             dest: tickShipFlash_Return checkWin_Return alienSweep_Return)
  then show ?thesis using Return by (simp add: gameLoop_def steady_gameReset)
next
  case (Continue s')
  then obtain s3 cs where
    s3: "tickShipFlash F (playerFire inp (moveShip inp s)) = Continue s3" and
    cs: "alienSweep F (selectFirer inp s3) = Continue cs" and
    s': "s' = advanceEnemyBullets (advancePlayerBullets (moveFormation F (snd cs)))"
    by (auto simp add: gameLoopFlow_def split: flow.splits dest: checkWin_Continue)
  have "steady s3"
    using steady_tickShipFlash[OF _ s3] assms by (simp add: steady_playerFire steady_moveShip)
  then have "steady (snd cs)"
    using steady_alienSweep[OF _ cs] by (simp add: steady_selectFirer)
  then have "steady s'" by (simp add: s' steady_advance steady_moveFormation)
  then show ?thesis using Continue by (simp add: gameLoop_def)
qed

lemma steady_run:
  assumes "steady s"
  shows "steady (run F inps s)"
  using assms by (induction inps arbitrary: s) (simp_all add: steady_gameLoop)

text \<open>
  C2. In every state reached from \<^verbatim>\<open>gameReset\<close> by any number of calls of \<^verbatim>\<open>gameLoop\<close>, with
  any inputs, \<^verbatim>\<open>enemyRemaining\<close> is the number of alien slots whose vitality is greater than 0.
\<close>

theorem aliensRemaining_counts_alive:
  "unat (enemyRemaining (run F inps (gameReset F)))
     = aliveCount (enemyAlive (run F inps (gameReset F)))"
  using steady_run[OF steady_gameReset, of F inps] by (simp add: steady_def)

text \<open>
  C9. In every state reached from \<^verbatim>\<open>gameReset\<close> (ship at 60) by any number of calls of
  \<^verbatim>\<open>gameLoop\<close>, with any inputs, the ship's x-position, read as an unsigned number, is
  between 0 and \<^verbatim>\<open>SCREEN_WIDTH - SHIP_WIDTH\<close> = 120: the subtraction never wraps below 0 and
  the addition never passes 120.
\<close>

theorem shipX_within_screen:
  "0 \<le> uint (shipX (run F inps (gameReset F)))
   \<and> uint (shipX (run F inps (gameReset F))) \<le> SCREEN_WIDTH - SHIP_WIDTH"
proof -
  have "shipX (run F inps (gameReset F)) \<le> 120"
    using steady_run[OF steady_gameReset, of F inps] by (simp add: steady_def)
  then have "uint (shipX (run F inps (gameReset F))) \<le> uint (120 :: uint8_t)"
    by (simp only: word_le_def)
  then show ?thesis by simp
qed

section \<open>Games that are played\<close>

lemma run_append: "run F (xs @ ys) s = run F ys (run F xs s)"
  by (induction xs arbitrary: s) simp_all

lemma flashingOff_reached: "run exact replay (gameReset exact) = flashingOff"
  by code_simp

lemma secondHit_reached: "gameLoop exact idle flashingOff = secondHit"
  by code_simp

lemma twoInBox_reached: "run exact doubleShot (gameReset exact) = twoInBox"
  by code_simp

section \<open>Aliens against the player's bullets\<close>

lemma hitBullet_fold:
  assumes "length (bulletX s) = L" "length (bulletY s) = L" "n \<le> L"
  shows "length (bulletX (fold (hitBullet k x y) [0..<n] s)) = L \<and> length (bulletY (fold (hitBullet k x y) [0..<n] s)) = L
    \<and> (\<forall>j. bulletX (fold (hitBullet k x y) [0..<n] s) ! j
          = (if j < n \<and> inAlienBox x y (bulletX s ! j) (bulletY s ! j) then 0 else bulletX s ! j))
    \<and> (\<forall>j. bulletY (fold (hitBullet k x y) [0..<n] s) ! j
          = (if j < n \<and> inAlienBox x y (bulletX s ! j) (bulletY s ! j) then 0 else bulletY s ! j))
    \<and> enemyAlive (fold (hitBullet k x y) [0..<n] s)
          = (if \<exists>j<n. inAlienBox x y (bulletX s ! j) (bulletY s ! j)
             then (enemyAlive s)[k := START_DYING] else enemyAlive s)"
  using assms(3)
proof (induction n)
  case 0
  then show ?case using assms(1,2) by simp
next
  case (Suc n)
  define u where "u = fold (hitBullet k x y) [0..<n] s"
  have IH: "length (bulletX u) = L" "length (bulletY u) = L"
    "\<And>j. bulletX u ! j
          = (if j < n \<and> inAlienBox x y (bulletX s ! j) (bulletY s ! j) then 0 else bulletX s ! j)"
    "\<And>j. bulletY u ! j
          = (if j < n \<and> inAlienBox x y (bulletX s ! j) (bulletY s ! j) then 0 else bulletY s ! j)"
    "enemyAlive u
          = (if \<exists>j<n. inAlienBox x y (bulletX s ! j) (bulletY s ! j)
             then (enemyAlive s)[k := START_DYING] else enemyAlive s)"
    using Suc unfolding u_def by simp_all
  have step: "fold (hitBullet k x y) [0..<Suc n] s = hitBullet k x y n u"
    by (simp add: u_def)
  have here: "bulletX u ! n = bulletX s ! n" "bulletY u ! n = bulletY s ! n"
    by (simp_all add: IH)
  show ?case
  proof (cases "inAlienBox x y (bulletX s ! n) (bulletY s ! n)")
    case True
    have ex: "\<exists>j<Suc n. inAlienBox x y (bulletX s ! j) (bulletY s ! j)"
      using True by blast
    have "enemyAlive (hitBullet k x y n u) = (enemyAlive s)[k := START_DYING]"
      using True here by (simp add: hitBullet_def IH(5))
    moreover have "bulletX (hitBullet k x y n u) = (bulletX u)[n := 0]"
      "bulletY (hitBullet k x y n u) = (bulletY u)[n := 0]"
      using True here by (simp_all add: hitBullet_def)
    ultimately show ?thesis
      unfolding step using ex True IH(1,2) Suc.prems
      by (simp add: nth_list_update IH(3,4) less_Suc_eq)
  next
    case False
    have ex: "(\<exists>j<Suc n. inAlienBox x y (bulletX s ! j) (bulletY s ! j))
          \<longleftrightarrow> (\<exists>j<n. inAlienBox x y (bulletX s ! j) (bulletY s ! j))"
      using False less_Suc_eq by auto
    have "hitBullet k x y n u = u" using False here by (simp add: hitBullet_def)
    then show ?thesis
      unfolding step ex using False IH(1,2) by (auto simp add: IH(3,4,5) less_Suc_eq)
  qed
qed

text \<open>
  C1, as the code has it. The loop over the player's bullets has no \<^verbatim>\<open>break\<close>: when alien \<open>k\<close>,
  drawn at \<open>(x, y)\<close>, is checked, every bullet slot that lies within the alien's box is set
  to (0, 0), every other slot keeps its value, and the alien is set to \<^verbatim>\<open>START_DYING\<close>
  (\<^verbatim>\<open>ALIVE - 1\<close>) exactly when at least one slot lies within the box.
\<close>

theorem checkAlienHit_consumes_every_match:
  assumes "length (bulletX s) = MAX_PLAYER_BULLETS" "length (bulletY s) = MAX_PLAYER_BULLETS"
  shows "(\<forall>j<MAX_PLAYER_BULLETS.
            bulletX (checkAlienHit k x y s) ! j
              = (if inAlienBox x y (bulletX s ! j) (bulletY s ! j) then 0 else bulletX s ! j)
          \<and> bulletY (checkAlienHit k x y s) ! j
              = (if inAlienBox x y (bulletX s ! j) (bulletY s ! j) then 0 else bulletY s ! j))
    \<and> enemyAlive (checkAlienHit k x y s)
         = (if \<exists>j<MAX_PLAYER_BULLETS. inAlienBox x y (bulletX s ! j) (bulletY s ! j)
            then (enemyAlive s)[k := START_DYING] else enemyAlive s)"
  using hitBullet_fold[OF assms, of MAX_PLAYER_BULLETS k x y]
  by (simp add: checkAlienHit_def)

theorem checkAlienHit_consumes_every_match_witness:
  "length (bulletX twoInBox) = MAX_PLAYER_BULLETS \<and> length (bulletY twoInBox) = MAX_PLAYER_BULLETS
   \<and> bulletX (checkAlienHit 5 57 12 twoInBox) ! 0 = 0
   \<and> bulletX (checkAlienHit 5 57 12 twoInBox) ! 1 = 0
   \<and> bulletX (checkAlienHit 5 57 12 twoInBox) ! 2 = bulletX twoInBox ! 2
   \<and> enemyAlive (checkAlienHit 5 57 12 twoInBox) ! 5 = START_DYING"
proof -
  have len: "length (bulletX twoInBox) = MAX_PLAYER_BULLETS"
    "length (bulletY twoInBox) = MAX_PLAYER_BULLETS"
    by (simp_all add: twoInBox_def)
  have in0: "inAlienBox 57 12 (bulletX twoInBox ! 0) (bulletY twoInBox ! 0)"
    and in1: "inAlienBox 57 12 (bulletX twoInBox ! 1) (bulletY twoInBox ! 1)"
    and out2: "\<not> inAlienBox 57 12 (bulletX twoInBox ! 2) (bulletY twoInBox ! 2)"
    by (simp_all add: twoInBox_def inAlienBox_def)
  have ex: "\<exists>j<MAX_PLAYER_BULLETS. inAlienBox 57 12 (bulletX twoInBox ! j) (bulletY twoInBox ! j)"
    using in0 by (intro exI[of _ 0]) simp
  note t = checkAlienHit_consumes_every_match[OF len, of 5 57 12]
  have "bulletX (checkAlienHit 5 57 12 twoInBox) ! 0 = 0"
    "bulletX (checkAlienHit 5 57 12 twoInBox) ! 1 = 0"
    "bulletX (checkAlienHit 5 57 12 twoInBox) ! 2 = bulletX twoInBox ! 2"
    using t in0 in1 out2 by simp_all
  moreover have "enemyAlive (checkAlienHit 5 57 12 twoInBox) ! 5 = START_DYING"
    using t ex by (simp add: twoInBox_def)
  ultimately show ?thesis using len by simp
qed

text \<open>
  C1, as stated, fails in \<open>twoInBox\<close>, the state that the game \<open>doubleShot\<close> reaches from
  reset. In the next tick alien 5 is drawn at (57, 12), and the slots 0 and 1 both lie
  within its box. Slot 1 is not the first match, and it is set to (0, 0) all the same, by
  the loop and by the whole tick, which runs to its end.
\<close>

theorem first_match_only_counterexample:
  "run exact doubleShot (gameReset exact) = twoInBox
   \<and> touch1 exact twoInBox 4
   \<and> row2X exact twoInBox 0 = 57 \<and> row2Y exact (bounce exact twoInBox) = 12
   \<and> inAlienBox 57 12 (bulletX twoInBox ! 0) (bulletY twoInBox ! 0)
   \<and> inAlienBox 57 12 (bulletX twoInBox ! 1) (bulletY twoInBox ! 1)
   \<and> (bulletX twoInBox ! 1, bulletY twoInBox ! 1) = (64, 18)
   \<and> (bulletX (checkAlienHit 5 57 12 twoInBox) ! 1, bulletY (checkAlienHit 5 57 12 twoInBox) ! 1)
       = (0, 0)
   \<and> gameLoopFlow exact idle twoInBox = Continue (gameLoop exact idle twoInBox)
   \<and> (bulletX (gameLoop exact idle twoInBox) ! 1, bulletY (gameLoop exact idle twoInBox) ! 1)
       = (0, 0)"
proof -
  have "touch1 exact twoInBox 4
   \<and> row2X exact twoInBox 0 = 57 \<and> row2Y exact (bounce exact twoInBox) = 12
   \<and> inAlienBox 57 12 (bulletX twoInBox ! 0) (bulletY twoInBox ! 0)
   \<and> inAlienBox 57 12 (bulletX twoInBox ! 1) (bulletY twoInBox ! 1)
   \<and> (bulletX twoInBox ! 1, bulletY twoInBox ! 1) = (64, 18)
   \<and> (bulletX (checkAlienHit 5 57 12 twoInBox) ! 1, bulletY (checkAlienHit 5 57 12 twoInBox) ! 1)
       = (0, 0)
   \<and> gameLoopFlow exact idle twoInBox = Continue (gameLoop exact idle twoInBox)
   \<and> (bulletX (gameLoop exact idle twoInBox) ! 1, bulletY (gameLoop exact idle twoInBox) ! 1)
       = (0, 0)"
    by code_simp
  then show ?thesis by (rule conjI[OF twoInBox_reached])
qed

section \<open>The bullet pools\<close>

lemma fold_slots:
  assumes inv: "\<And>i s. I s \<Longrightarrow> I (f i s)"
    and other: "\<And>i j s. I s \<Longrightarrow> j \<noteq> i \<Longrightarrow> slot (f i s) j = slot s j"
    and own: "\<And>i s. I s \<Longrightarrow> i < N \<Longrightarrow> slot (f i s) i = g (slot s i)"
    and "I s" "n \<le> N"
  shows "I (fold f [0..<n] s)
    \<and> (\<forall>j. slot (fold f [0..<n] s) j = (if j < n then g (slot s j) else slot s j))"
  using \<open>n \<le> N\<close>
proof (induction n)
  case 0
  then show ?case using \<open>I s\<close> by simp
next
  case (Suc n)
  define u where "u = fold f [0..<n] s"
  have u: "I u" "\<And>j. slot u j = (if j < n then g (slot s j) else slot s j)"
    using Suc unfolding u_def by simp_all
  have step: "fold f [0..<Suc n] s = f n u" by (simp add: u_def)
  have "slot (f n u) j = (if j < Suc n then g (slot s j) else slot s j)" for j
  proof (cases "j = n")
    case True
    then show ?thesis using own[OF u(1), of n] u(2)[of n] Suc.prems by simp
  next
    case False
    then show ?thesis using other[OF u(1), of j n] u(2)[of j] by (simp add: less_Suc_eq)
  qed
  then show ?case unfolding step using inv[OF u(1)] by simp
qed

lemma advancePlayerBullets_slots:
  assumes "length (bulletX s) = MAX_PLAYER_BULLETS" "length (bulletY s) = MAX_PLAYER_BULLETS"
  shows "(bulletX (advancePlayerBullets s) ! j, bulletY (advancePlayerBullets s) ! j)
     = (if j < MAX_PLAYER_BULLETS then playerSlot (bulletX s ! j, bulletY s ! j)
        else (bulletX s ! j, bulletY s ! j))"
proof -
  have "(\<lambda>t. length (bulletX t) = MAX_PLAYER_BULLETS \<and> length (bulletY t) = MAX_PLAYER_BULLETS)
          (fold playerBulletStep [0..<MAX_PLAYER_BULLETS] s)
    \<and> (\<forall>j. (\<lambda>t j. (bulletX t ! j, bulletY t ! j)) (fold playerBulletStep [0..<MAX_PLAYER_BULLETS] s) j
          = (if j < MAX_PLAYER_BULLETS then playerSlot ((\<lambda>t j. (bulletX t ! j, bulletY t ! j)) s j)
             else (\<lambda>t j. (bulletX t ! j, bulletY t ! j)) s j))"
  proof (rule fold_slots[where N = MAX_PLAYER_BULLETS])
    show "length (bulletX s) = MAX_PLAYER_BULLETS \<and> length (bulletY s) = MAX_PLAYER_BULLETS"
      using assms by simp
  qed (auto simp add: playerBulletStep_def playerSlot_def Let_def)
  then show ?thesis by (simp add: advancePlayerBullets_def)
qed

lemma advanceEnemyBullets_slots:
  assumes "length (enemyBulletX s) = MAX_ENEMY_BULLETS" "length (enemyBulletY s) = MAX_ENEMY_BULLETS"
  shows "(enemyBulletX (advanceEnemyBullets s) ! j, enemyBulletY (advanceEnemyBullets s) ! j)
     = (if j < MAX_ENEMY_BULLETS then enemySlot s (enemyBulletX s ! j, enemyBulletY s ! j)
        else (enemyBulletX s ! j, enemyBulletY s ! j))"
proof -
  have "(\<lambda>t. length (enemyBulletX t) = MAX_ENEMY_BULLETS \<and> length (enemyBulletY t) = MAX_ENEMY_BULLETS
              \<and> shipX t = shipX s \<and> shipY t = shipY s)
          (fold enemyBulletStep [0..<MAX_ENEMY_BULLETS] s)
    \<and> (\<forall>j. (\<lambda>t j. (enemyBulletX t ! j, enemyBulletY t ! j)) (fold enemyBulletStep [0..<MAX_ENEMY_BULLETS] s) j
          = (if j < MAX_ENEMY_BULLETS then enemySlot s ((\<lambda>t j. (enemyBulletX t ! j, enemyBulletY t ! j)) s j)
             else (\<lambda>t j. (enemyBulletX t ! j, enemyBulletY t ! j)) s j))"
  proof (rule fold_slots[where N = MAX_ENEMY_BULLETS])
    show "length (enemyBulletX s) = MAX_ENEMY_BULLETS \<and> length (enemyBulletY s) = MAX_ENEMY_BULLETS
              \<and> shipX s = shipX s \<and> shipY s = shipY s"
      using assms by simp
  qed (auto simp add: enemyBulletStep_def enemySlot_def inShipBox_def Let_def)
  then show ?thesis by (simp add: advanceEnemyBullets_def)
qed

text \<open>
  C8, as the code has it. A slot is active when both of its coordinates are not 0. The
  player's loop subtracts the speed from the y of an active slot, in 8 bits, and sets the slot
  to (0, 0) exactly when the new y is 0 or greater than the screen height. The aliens' loop
  adds the speed to the y of an active slot and sets the slot to (0, 0) exactly when the
  moved bullet lies within the ship's box or its new y is at least the screen height.
  Slots that are not active keep their value.
\<close>

theorem advanceBullets_per_slot:
  assumes "wellformed s" "j < MAX_PLAYER_BULLETS"
  shows "(bulletX (advancePlayerBullets s) ! j, bulletY (advancePlayerBullets s) ! j)
       = (if bulletX s ! j \<noteq> 0 \<and> bulletY s ! j \<noteq> 0 then
            (if bulletY s ! j - SHIP_BULL_SPEED = 0
                \<or> uint (bulletY s ! j - SHIP_BULL_SPEED) > SCREEN_HEIGHT
             then (0, 0) else (bulletX s ! j, bulletY s ! j - SHIP_BULL_SPEED))
          else (bulletX s ! j, bulletY s ! j))
    \<and> (enemyBulletX (advanceEnemyBullets s) ! j, enemyBulletY (advanceEnemyBullets s) ! j)
       = (if enemyBulletX s ! j \<noteq> 0 \<and> enemyBulletY s ! j \<noteq> 0 then
            (if inShipBox s (enemyBulletX s ! j) (enemyBulletY s ! j + ENEMY_BULLET_SPEED)
                \<or> uint (enemyBulletY s ! j + ENEMY_BULLET_SPEED) \<ge> SCREEN_HEIGHT
             then (0, 0) else (enemyBulletX s ! j, enemyBulletY s ! j + ENEMY_BULLET_SPEED))
          else (enemyBulletX s ! j, enemyBulletY s ! j))"
proof -
  have len: "length (bulletX s) = MAX_PLAYER_BULLETS" "length (bulletY s) = MAX_PLAYER_BULLETS"
    "length (enemyBulletX s) = MAX_ENEMY_BULLETS" "length (enemyBulletY s) = MAX_ENEMY_BULLETS"
    using assms(1) by (simp_all add: wellformed_def)
  show ?thesis
    using advancePlayerBullets_slots[OF len(1,2), of j] advanceEnemyBullets_slots[OF len(3,4), of j]
      assms(2)
    by (simp add: playerSlot_def enemySlot_def)
qed

theorem advanceBullets_per_slot_witness:
  "wellformed strayBullets \<and> (0::nat) < MAX_PLAYER_BULLETS
   \<and> (bulletX (advancePlayerBullets strayBullets) ! 0,
       bulletY (advancePlayerBullets strayBullets) ! 0) = (64, 29)
   \<and> (enemyBulletX (advanceEnemyBullets strayBullets) ! 0,
       enemyBulletY (advanceEnemyBullets strayBullets) ! 0) = (0, 0)"
proof -
  have wf: "wellformed strayBullets"
    by (simp add: strayBullets_def wellformed_def gameReset_def)
  have lt: "(0::nat) < MAX_PLAYER_BULLETS" by simp
  show ?thesis
    using advanceBullets_per_slot[OF wf lt] wf
    by (simp add: strayBullets_def gameReset_def inShipBox_def)
qed

text \<open>
  C8, as stated, fails in the aliens' pool: the bullet at (10, 63) moves to y = 64, which is
  neither 0 nor greater than the screen height, and the slot is reset; the slot (0, 5)
  differs from (0, 0) and is not moved.
\<close>

theorem reset_exactly_when_counterexample:
  "(enemyBulletX strayBullets ! 0, enemyBulletY strayBullets ! 0) = (10, 63)
   \<and> \<not> ((63::uint8_t) + ENEMY_BULLET_SPEED = 0 \<or> uint ((63::uint8_t) + ENEMY_BULLET_SPEED) > SCREEN_HEIGHT)
   \<and> (enemyBulletX (advanceEnemyBullets strayBullets) ! 0,
       enemyBulletY (advanceEnemyBullets strayBullets) ! 0) = (0, 0)
   \<and> (enemyBulletX strayBullets ! 1, enemyBulletY strayBullets ! 1) = (0, 5)
   \<and> (enemyBulletX (advanceEnemyBullets strayBullets) ! 1,
       enemyBulletY (advanceEnemyBullets strayBullets) ! 1) = (0, 5)"
  by code_simp

lemma fireShots_snoc: "fireShots (xs @ [x]) s = fireBullet ((fireShots xs s)\<lparr>shipX := x\<rparr>)"
  by (simp add: fireShots_def)

lemma fireShots_frame:
  "length (bulletX (fireShots xs s)) = length (bulletX s)
   \<and> length (bulletY (fireShots xs s)) = length (bulletY s)
   \<and> shipY (fireShots xs s) = shipY s"
  by (induction xs rule: rev_induct) (simp_all add: fireShots_snoc fireBullet_def, simp add: fireShots_def)

lemma cursor_step:
  fixes c :: uint8_t
  assumes "c < 20"
  shows "unat ((c + 1) mod 20) = (unat c + 1) mod 20" and "(c + 1) mod 20 < 20"
proof -
  from assms have c: "unat c < 20" by (simp add: word_less_nat_alt)
  then have "unat c + unat (1::uint8_t) < 2 ^ LENGTH(8)" by simp
  then have "unat (c + 1) = unat c + unat (1::uint8_t)" by (rule unat_add_lem[THEN iffD1])
  then show u: "unat ((c + 1) mod 20) = (unat c + 1) mod 20" by (simp add: unat_mod)
  have "(unat c + 1) mod 20 < 20" by simp
  with u show "(c + 1) mod 20 < 20" by (simp add: word_less_nat_alt)
qed

lemma fireShots_cursor:
  assumes "currBulletId s < MAX_PLAYER_BULLETS"
  shows "currBulletId (fireShots xs s) < MAX_PLAYER_BULLETS
    \<and> unat (currBulletId (fireShots xs s)) = (unat (currBulletId s) + length xs) mod MAX_PLAYER_BULLETS"
proof (induction xs rule: rev_induct)
  case Nil
  from assms have "unat (currBulletId s) < 20" by (simp add: word_less_nat_alt)
  then show ?case using assms by (simp add: fireShots_def)
next
  case (snoc x xs)
  define c where "c = currBulletId (fireShots xs s)"
  have c: "c < 20" "unat c = (unat (currBulletId s) + length xs) mod 20"
    using snoc by (simp_all add: c_def)
  have "currBulletId (fireShots (xs @ [x]) s) = (c + 1) mod 20"
    by (simp add: fireShots_snoc fireBullet_def c_def)
  moreover have "(unat c + 1) mod 20 = (unat (currBulletId s) + length (xs @ [x])) mod 20"
    using c(2) by (simp add: mod_Suc_eq)
  ultimately show ?case using cursor_step[OF c(1)] by simp
qed

text \<open>
  C7. A shot of either pool writes its coordinates into the slot at the cursor, whatever
  the slot holds, leaves the other slots alone and advances the cursor by one modulo the
  capacity of 20. So when the cursor is at 0 and the player shoots 21 times with nothing
  in between, slot 0, which the first shot wrote, holds the coordinates of the last shot.
\<close>

theorem pool_is_ring_buffer:
  assumes "wellformed s" "currBulletId s < MAX_PLAYER_BULLETS"
    "currEnemyBulletId s < MAX_ENEMY_BULLETS"
  shows "bulletX (fireBullet s) ! unat (currBulletId s) = shipX s + SHIP_WIDTH div 2
    \<and> bulletY (fireBullet s) ! unat (currBulletId s) = shipY s
    \<and> (\<forall>j. j \<noteq> unat (currBulletId s) \<longrightarrow>
          bulletX (fireBullet s) ! j = bulletX s ! j \<and> bulletY (fireBullet s) ! j = bulletY s ! j)
    \<and> unat (currBulletId (fireBullet s)) = (unat (currBulletId s) + 1) mod MAX_PLAYER_BULLETS
    \<and> enemyBulletX (enemyFire x y s) ! unat (currEnemyBulletId s) = word_of_int (x + ALIEN_WIDTH div 2)
    \<and> enemyBulletY (enemyFire x y s) ! unat (currEnemyBulletId s) = word_of_int (y + ALIEN_HEIGHT)
    \<and> (\<forall>j. j \<noteq> unat (currEnemyBulletId s) \<longrightarrow>
          enemyBulletX (enemyFire x y s) ! j = enemyBulletX s ! j
          \<and> enemyBulletY (enemyFire x y s) ! j = enemyBulletY s ! j)
    \<and> unat (currEnemyBulletId (enemyFire x y s))
         = (unat (currEnemyBulletId s) + 1) mod MAX_ENEMY_BULLETS
    \<and> (currBulletId s = 0 \<and> length xs = MAX_PLAYER_BULLETS + 1 \<longrightarrow>
          bulletX (fireShots xs s) ! 0 = last xs + SHIP_WIDTH div 2
          \<and> bulletY (fireShots xs s) ! 0 = shipY s
          \<and> bulletX (fireShots [hd xs] s) ! 0 = hd xs + SHIP_WIDTH div 2)"
proof -
  have len: "length (bulletX s) = 20" "length (bulletY s) = 20"
    "length (enemyBulletX s) = 20" "length (enemyBulletY s) = 20"
    using assms(1) by (simp_all add: wellformed_def)
  have cur: "unat (currBulletId s) < 20" "unat (currEnemyBulletId s) < 20"
    using assms(2,3) by (simp_all add: word_less_nat_alt)
  have player: "bulletX (fireBullet s) ! unat (currBulletId s) = shipX s + SHIP_WIDTH div 2
    \<and> bulletY (fireBullet s) ! unat (currBulletId s) = shipY s
    \<and> (\<forall>j. j \<noteq> unat (currBulletId s) \<longrightarrow>
          bulletX (fireBullet s) ! j = bulletX s ! j \<and> bulletY (fireBullet s) ! j = bulletY s ! j)
    \<and> unat (currBulletId (fireBullet s)) = (unat (currBulletId s) + 1) mod MAX_PLAYER_BULLETS"
    using len cur cursor_step(1)[OF assms(2)] by (simp add: fireBullet_def)
  have enemy: "enemyBulletX (enemyFire x y s) ! unat (currEnemyBulletId s) = word_of_int (x + ALIEN_WIDTH div 2)
    \<and> enemyBulletY (enemyFire x y s) ! unat (currEnemyBulletId s) = word_of_int (y + ALIEN_HEIGHT)
    \<and> (\<forall>j. j \<noteq> unat (currEnemyBulletId s) \<longrightarrow>
          enemyBulletX (enemyFire x y s) ! j = enemyBulletX s ! j
          \<and> enemyBulletY (enemyFire x y s) ! j = enemyBulletY s ! j)
    \<and> unat (currEnemyBulletId (enemyFire x y s))
         = (unat (currEnemyBulletId s) + 1) mod MAX_ENEMY_BULLETS"
    using len cur cursor_step(1)[OF assms(3)] by (simp add: enemyFire_def)
  have many: "bulletX (fireShots xs s) ! 0 = last xs + SHIP_WIDTH div 2
          \<and> bulletY (fireShots xs s) ! 0 = shipY s
          \<and> bulletX (fireShots [hd xs] s) ! 0 = hd xs + SHIP_WIDTH div 2"
    if zero: "currBulletId s = 0" and n: "length xs = MAX_PLAYER_BULLETS + 1"
  proof -
    from n have "xs \<noteq> []" by auto
    then obtain ys x where xs: "xs = ys @ [x]" by (metis rev_exhaust)
    with n have ys: "length ys = 20" by simp
    define u where "u = fireShots ys s"
    have "unat (currBulletId u) = 0"
      using fireShots_cursor[OF assms(2), of ys] zero ys by (simp add: u_def)
    moreover have "length (bulletX u) = 20" "length (bulletY u) = 20" "shipY u = shipY s"
      using fireShots_frame[of ys s] len by (simp_all add: u_def)
    ultimately have "bulletX (fireShots xs s) ! 0 = x + SHIP_WIDTH div 2"
      "bulletY (fireShots xs s) ! 0 = shipY s"
      by (simp_all add: xs fireShots_snoc fireBullet_def u_def[symmetric])
    moreover have "bulletX (fireShots [hd xs] s) ! 0 = hd xs + SHIP_WIDTH div 2"
      using zero len by (simp add: fireShots_def fireBullet_def)
    ultimately show ?thesis by (simp add: xs)
  qed
  show ?thesis using player enemy many by blast
qed

theorem pool_is_ring_buffer_witness:
  "wellformed (gameReset exact) \<and> currBulletId (gameReset exact) < MAX_PLAYER_BULLETS
   \<and> currEnemyBulletId (gameReset exact) < MAX_ENEMY_BULLETS
   \<and> currBulletId (gameReset exact) = 0
   \<and> length (map of_nat [0..<21] :: uint8_t list) = MAX_PLAYER_BULLETS + 1
   \<and> bulletX (fireShots (map of_nat [0..<21]) (gameReset exact)) ! 0 = 24
   \<and> bulletX (fireShots [hd (map of_nat [0..<21])] (gameReset exact)) ! 0 = 4
   \<and> unat (currBulletId (fireBullet (gameReset exact))) = 1"
proof -
  have wf: "wellformed (gameReset exact)"
    and c1: "currBulletId (gameReset exact) < MAX_PLAYER_BULLETS"
    and c2: "currEnemyBulletId (gameReset exact) < MAX_ENEMY_BULLETS"
    and z: "currBulletId (gameReset exact) = 0"
    by (simp_all add: wellformed_def gameReset_def)
  have n: "length (map of_nat [0..<21] :: uint8_t list) = MAX_PLAYER_BULLETS + 1" by simp
  have l: "last (map of_nat [0..<21] :: uint8_t list) = 20"
    and h: "hd (map of_nat [0..<21] :: uint8_t list) = 0" by code_simp+
  show ?thesis
    using pool_is_ring_buffer[OF wf c1 c2, of 0 0 "map of_nat [0..<21]"] wf c1 c2 z n
    unfolding l h by simp
qed

section \<open>The aliens' shot\<close>

lemma list_update_self:
  assumes "ys = xs[c := w]"
  shows "ys = xs[c := ys ! c]"
  using assms by (cases "c < length xs") (simp_all add: list_update_beyond)

lemma oneShot_enemyFire:
  assumes "enemyPool s' = enemyPool (enemyFire x y s)"
  shows "oneShot s s'"
proof -
  have "enemyBulletX s' = (enemyBulletX s)[unat (currEnemyBulletId s) := word_of_int (x + ALIEN_WIDTH div 2)]"
    "enemyBulletY s' = (enemyBulletY s)[unat (currEnemyBulletId s) := word_of_int (y + ALIEN_HEIGHT)]"
    "currEnemyBulletId s' = (currEnemyBulletId s + 1) mod MAX_ENEMY_BULLETS"
    using assms by (simp_all add: enemyPool_def enemyFire_def)
  then show ?thesis
    unfolding oneShot_def by (intro conjI list_update_self) assumption+
qed

lemma enemyPool_bounce: "enemyPool (bounce F s) = enemyPool s"
  by (simp add: enemyPool_def bounce_def)

lemma enemyPool_hitBullet: "enemyPool (hitBullet k x y j s) = enemyPool s"
  by (simp add: enemyPool_def hitBullet_def)

lemma enemyPool_checkAlienHit: "enemyPool (checkAlienHit k x y s) = enemyPool s"
  unfolding checkAlienHit_def
  by (rule fold_preserves[where P = "\<lambda>t. enemyPool t = enemyPool s"])
     (simp_all add: enemyPool_hitBullet)

lemma enemyPool_tickAlienFlash: "enemyPool (tickAlienFlash k s) = enemyPool s"
  by (simp add: enemyPool_def tickAlienFlash_def Let_def)

lemma drawnAlien_pool:
  assumes "drawnAlien F k x y cs = Continue cs'"
  shows "fst cs' = fst cs - 1
    \<and> enemyPool (snd cs')
        = (if fst cs = 0 then enemyPool (enemyFire x y (snd cs)) else enemyPool (snd cs))"
  using assms
  by (auto simp add: drawnAlien_def Let_def enemyPool_checkAlienHit enemyPool_bounce
           split: if_splits)

lemma shotsSoFar_drawnAlien:
  assumes "shotsSoFar c0 s0 cs" "drawnAlien F k x y cs = Continue cs'"
  shows "shotsSoFar c0 s0 cs'"
proof -
  note p = drawnAlien_pool[OF assms(2)]
  show ?thesis
  proof (cases "fst cs = 0")
    case True
    then have "noShot s0 (snd cs)" "0 \<le> c0" using assms(1) by (simp_all add: shotsSoFar_def)
    then have "enemyPool (snd cs') = enemyPool (enemyFire x y s0)"
      using p True by (simp add: noShot_def enemyPool_def enemyFire_def)
    then have "oneShot s0 (snd cs')" by (rule oneShot_enemyFire)
    then show ?thesis using p True \<open>0 \<le> c0\<close> by (simp add: shotsSoFar_def)
  next
    case False
    then have e: "enemyPool (snd cs') = enemyPool (snd cs)" and c: "fst cs' = fst cs - 1"
      using p by simp_all
    from e have "noShot s0 (snd cs') = noShot s0 (snd cs)"
      "oneShot s0 (snd cs') = oneShot s0 (snd cs)"
      by (simp_all add: noShot_def oneShot_def enemyPool_def)
    then show ?thesis using assms(1) False c
      by (auto simp add: shotsSoFar_def split: if_splits)
  qed
qed

lemma shotsSoFar_flash:
  assumes "shotsSoFar c0 s0 cs"
  shows "shotsSoFar c0 s0 (fst cs, tickAlienFlash k (snd cs))"
proof -
  have "enemyPool (tickAlienFlash k (snd cs)) = enemyPool (snd cs)"
    by (rule enemyPool_tickAlienFlash)
  then have "noShot s0 (tickAlienFlash k (snd cs)) = noShot s0 (snd cs)"
    "oneShot s0 (tickAlienFlash k (snd cs)) = oneShot s0 (snd cs)"
    by (simp_all add: noShot_def oneShot_def enemyPool_def)
  then show ?thesis using assms by (simp add: shotsSoFar_def)
qed

lemma shotsSoFar_row1Body:
  assumes "shotsSoFar c0 s0 cs" "row1Body F i cs = Continue cs'"
  shows "shotsSoFar c0 s0 cs'"
  using assms
  by (auto simp add: row1Body_def split: if_splits flow.splits
           intro: shotsSoFar_flash shotsSoFar_drawnAlien)

lemma shotsSoFar_row2Body:
  assumes "shotsSoFar c0 s0 cs" "row2Body F i cs = Continue cs'"
  shows "shotsSoFar c0 s0 cs'"
  using assms
  by (auto simp add: row2Body_def Let_def split: if_splits flow.splits
           intro: shotsSoFar_flash shotsSoFar_drawnAlien)

lemma shotsSoFar_alienSweep:
  assumes "shotsSoFar c0 s0 cs" "alienSweep F cs = Continue cs'"
  shows "shotsSoFar c0 s0 cs'"
proof -
  from assms(2) obtain c1 where
    r1: "forEach (row1Body F) [0..<ROW1_ENEMY_COUNT] cs = Continue c1" and
    r2: "forEach (row2Body F) [0..<ROW2_ENEMY_COUNT] c1 = Continue cs'"
    by (auto simp add: alienSweep_def split: flow.splits)
  have "shotsSoFar c0 s0 c1"
    by (rule forEach_Continue[OF r1, where P = "shotsSoFar c0 s0"])
       (use assms(1) shotsSoFar_row1Body in blast)+
  then show ?thesis
    by (rule forEach_Continue[OF r2, where P = "shotsSoFar c0 s0"])
       (use shotsSoFar_row2Body in blast)
qed

lemma selectFirer_cases:
  "enemyPool (snd (selectFirer inp s)) = enemyPool s
   \<and> (fst (selectFirer inp s) = - 1
      \<or> enemyBulletWait s = 1 \<and> 0 < enemyRemaining s
        \<and> 0 \<le> fst (selectFirer inp s) \<and> fst (selectFirer inp s) < uint (enemyRemaining s))"
proof (cases "enemyBulletWait s > 0 \<and> enemyBulletWait s - 1 = 0 \<and> enemyRemaining s > 0")
  case True
  then have "enemyBulletWait s = 1" by simp
  moreover have "0 < uint (enemyRemaining s)" using True by (simp add: word_less_def)
  ultimately show ?thesis using True
    by (simp add: selectFirer_def Let_def enemyPool_def)
next
  case False
  then show ?thesis by (auto simp add: selectFirer_def Let_def enemyPool_def)
qed

lemma sweep_shots:
  assumes "alienSweep F (selectFirer inp s) = Continue cs'"
  shows "(noShot s (snd cs') \<or> oneShot s (snd cs'))
    \<and> (fst (selectFirer inp s) < 0 \<longrightarrow> noShot s (snd cs'))
    \<and> (\<not> (enemyBulletWait s = 1 \<and> 0 < enemyRemaining s) \<longrightarrow>
          fst (selectFirer inp s) = - 1 \<and> noShot s (snd cs'))
    \<and> (\<not> noShot s (snd cs') \<longrightarrow> fst cs' < 0)"
proof -
  define c0 where "c0 = fst (selectFirer inp s)"
  define s0 where "s0 = snd (selectFirer inp s)"
  have pool: "enemyPool s0 = enemyPool s"
    unfolding s0_def using selectFirer_cases[of inp s] by (rule conjunct1)
  have sel: "c0 = - 1 \<or> enemyBulletWait s = 1 \<and> 0 < enemyRemaining s"
    unfolding c0_def using selectFirer_cases[of inp s] by blast
  have start: "shotsSoFar c0 s0 (c0, s0)" by (simp add: shotsSoFar_def noShot_def)
  have sweep: "alienSweep F (c0, s0) = Continue cs'"
    unfolding c0_def s0_def using assms by simp
  have fin: "shotsSoFar c0 s0 cs'" by (rule shotsSoFar_alienSweep[OF start sweep])
  have same: "noShot s0 (snd cs') = noShot s (snd cs')" "oneShot s0 (snd cs') = oneShot s (snd cs')"
    using pool by (simp_all add: noShot_def oneShot_def enemyPool_def)
  have le: "fst cs' \<le> c0" using fin by (simp add: shotsSoFar_def)
  have nonneg: "noShot s (snd cs')" if "0 \<le> fst cs'"
    using fin that same by (simp add: shotsSoFar_def)
  have neg: "noShot s (snd cs') \<or> (0 \<le> c0 \<and> oneShot s (snd cs'))" if "fst cs' < 0"
    using fin that same by (simp add: shotsSoFar_def)
  have 1: "noShot s (snd cs') \<or> oneShot s (snd cs')"
    using nonneg neg by (cases "0 \<le> fst cs'") auto
  have 2: "noShot s (snd cs')" if "c0 < 0"
    using nonneg neg that by (cases "0 \<le> fst cs'") auto
  have 3: "c0 = - 1 \<and> noShot s (snd cs')" if "\<not> (enemyBulletWait s = 1 \<and> 0 < enemyRemaining s)"
    using sel that 2 by auto
  have 4: "fst cs' < 0" if "\<not> noShot s (snd cs')"
    using nonneg that by (cases "0 \<le> fst cs'") auto
  show ?thesis using 1 2 3 4 unfolding c0_def by blast
qed

text \<open>
  C10. In every tick the sweep writes at most one bullet into the aliens' pool. When the
  sweep ends the tick by \<^verbatim>\<open>gameOver\<close> the game is reset (and the pool is empty). When it runs
  to its end, either the pool and its cursor are as before, or the arrays differ at most at
  the slot under the cursor and the cursor has advanced by one. \<^verbatim>\<open>shipToFire\<close> is -1 unless
  the cooldown has just reached 0 with aliens remaining; when it starts below 0 nothing is
  written; and when a bullet was written the counter has passed below 0, so that it cannot
  match again.
\<close>

theorem at_most_one_enemy_shot:
  "case alienSweep F (selectFirer inp s) of
     Return r \<Rightarrow> r = gameReset F
   | Continue cs' \<Rightarrow>
       (noShot s (snd cs') \<or> oneShot s (snd cs'))
       \<and> (fst (selectFirer inp s) < 0 \<longrightarrow> noShot s (snd cs'))
       \<and> (\<not> (enemyBulletWait s = 1 \<and> 0 < enemyRemaining s) \<longrightarrow>
             fst (selectFirer inp s) = - 1 \<and> noShot s (snd cs'))
       \<and> (\<not> noShot s (snd cs') \<longrightarrow> fst cs' < 0)"
proof (cases "alienSweep F (selectFirer inp s)")
  case (Return r)
  then show ?thesis using alienSweep_Return[OF Return] by simp
next
  case (Continue cs')
  then show ?thesis using sweep_shots[OF Continue] by simp
qed

theorem at_most_one_enemy_shot_witness:
  "(\<exists>cs'. alienSweep exact (selectFirer (idle\<lparr>rnd := 3\<rparr>) readyToFire) = Continue cs'
       \<and> \<not> noShot readyToFire (snd cs') \<and> oneShot readyToFire (snd cs') \<and> fst cs' < 0)
   \<and> (\<exists>cs'. alienSweep exact (selectFirer idle (gameReset exact)) = Continue cs'
       \<and> fst (selectFirer idle (gameReset exact)) < 0
       \<and> noShot (gameReset exact) (snd cs'))"
proof -
  have "case alienSweep exact (selectFirer (idle\<lparr>rnd := 3\<rparr>) readyToFire) of
          Return r \<Rightarrow> False | Continue cs \<Rightarrow> currEnemyBulletId (snd cs) = 1"
    by code_simp
  then obtain cs1 where
    c1: "alienSweep exact (selectFirer (idle\<lparr>rnd := 3\<rparr>) readyToFire) = Continue cs1"
    and id1: "currEnemyBulletId (snd cs1) = 1"
    by (auto split: flow.splits)
  have "currEnemyBulletId readyToFire = 0" by (simp add: readyToFire_def gameReset_def)
  with id1 have n1: "\<not> noShot readyToFire (snd cs1)" by (simp add: noShot_def enemyPool_def)
  have w1: "oneShot readyToFire (snd cs1) \<and> fst cs1 < 0"
    using at_most_one_enemy_shot[where F = exact and inp = "idle\<lparr>rnd := 3\<rparr>" and s = readyToFire] n1
    unfolding c1 by simp
  have "case alienSweep exact (selectFirer idle (gameReset exact)) of
          Return r \<Rightarrow> False | Continue cs \<Rightarrow> True"
    by code_simp
  then obtain cs2 where c2: "alienSweep exact (selectFirer idle (gameReset exact)) = Continue cs2"
    by (auto split: flow.splits)
  have neg: "fst (selectFirer idle (gameReset exact)) < 0" by code_simp
  have w2: "noShot (gameReset exact) (snd cs2)"
    using at_most_one_enemy_shot[where F = exact and inp = idle and s = "gameReset exact"] neg
    unfolding c2 by simp
  show ?thesis using c1 n1 w1 c2 neg w2 by blast
qed

section \<open>The formation at the edge of the screen\<close>

lemma course_bounce:
  assumes "course s = course t"
  shows "course (bounce F s) = course (bounce F t)"
  using assms by (simp add: course_def bounce_def)



lemma formation_hitBullet:
  "enemyX (hitBullet k x y j s) = enemyX s \<and> course (hitBullet k x y j s) = course s
   \<and> (\<forall>m. m \<noteq> k \<longrightarrow> enemyAlive (hitBullet k x y j s) ! m = enemyAlive s ! m)"
  by (simp add: hitBullet_def course_def)

lemma formation_checkAlienHit:
  "enemyX (checkAlienHit k x y s) = enemyX s \<and> course (checkAlienHit k x y s) = course s
   \<and> (\<forall>m. m \<noteq> k \<longrightarrow> enemyAlive (checkAlienHit k x y s) ! m = enemyAlive s ! m)"
  unfolding checkAlienHit_def
  by (rule fold_preserves[where P = "\<lambda>t. enemyX t = enemyX s \<and> course t = course s
        \<and> (\<forall>m. m \<noteq> k \<longrightarrow> enemyAlive t ! m = enemyAlive s ! m)"])
     (simp_all add: formation_hitBullet)

lemma formation_tickAlienFlash:
  "enemyX (tickAlienFlash k s) = enemyX s \<and> course (tickAlienFlash k s) = course s
   \<and> (\<forall>m. m \<noteq> k \<longrightarrow> enemyAlive (tickAlienFlash k s) ! m = enemyAlive s ! m)"
  by (simp add: tickAlienFlash_def Let_def course_def)

lemma formation_drawnAlien:
  assumes "drawnAlien F k x y cs = Continue c1"
  shows "enemyX (snd c1) = enemyX (snd cs)
    \<and> (\<forall>m. m \<noteq> k \<longrightarrow> enemyAlive (snd c1) ! m = enemyAlive (snd cs) ! m)
    \<and> course (snd c1) = (if touchesEdge x then course (bounce F (snd cs)) else course (snd cs))"
proof -
  define s1 where "s1 = (if fst cs = 0 then enemyFire x y (snd cs) else snd cs)"
  define s2 where "s2 = (if touchesEdge x then bounce F s1 else s1)"
  have c1: "snd c1 = checkAlienHit k x y s2"
    using assms by (auto simp add: drawnAlien_def Let_def s2_def s1_def split: if_splits)
  have 1: "enemyX s1 = enemyX (snd cs)" "enemyAlive s1 = enemyAlive (snd cs)"
    "course s1 = course (snd cs)"
    by (simp_all add: s1_def enemyFire_def course_def)
  have 2: "enemyX s2 = enemyX (snd cs)" "enemyAlive s2 = enemyAlive (snd cs)"
    "course s2 = (if touchesEdge x then course (bounce F (snd cs)) else course (snd cs))"
    using 1 course_bounce[OF 1(3), of F] by (simp_all add: s2_def bounce_def)
  show ?thesis using formation_checkAlienHit[of k x y s2] 2 by (simp add: c1)
qed

lemma formation_row1Body:
  assumes "row1Body F i cs = Continue c1"
  shows "enemyX (snd c1) = enemyX (snd cs)
    \<and> (\<forall>m. m \<noteq> i \<longrightarrow> enemyAlive (snd c1) ! m = enemyAlive (snd cs) ! m)
    \<and> course (snd c1) = (if touch1 F (snd cs) i then course (bounce F (snd cs)) else course (snd cs))"
proof (cases "enemyAlive (snd cs) ! i mod 2 = 1")
  case False
  then have "snd c1 = tickAlienFlash i (snd cs)" using assms by (auto simp add: row1Body_def)
  then show ?thesis using False formation_tickAlienFlash[of i "snd cs"] by (simp add: touch1_def)
next
  case True
  then obtain c where c: "drawnAlien F i (row1X F (snd cs) i) (row1Y F (snd cs)) cs = Continue c"
    and c1: "snd c1 = tickAlienFlash i (snd c)"
    using assms by (auto simp add: row1Body_def split: flow.splits)
  show ?thesis
    using formation_drawnAlien[OF c] formation_tickAlienFlash[of i "snd c"] True
    by (simp add: c1 touch1_def)
qed

lemma formation_row2Body:
  assumes "row2Body F i cs = Continue c1"
  shows "enemyX (snd c1) = enemyX (snd cs)
    \<and> (\<forall>m. m \<noteq> ROW1_ENEMY_COUNT + i \<longrightarrow> enemyAlive (snd c1) ! m = enemyAlive (snd cs) ! m)
    \<and> course (snd c1) = (if touch2 F (snd cs) i then course (bounce F (snd cs)) else course (snd cs))"
proof (cases "enemyAlive (snd cs) ! (ROW1_ENEMY_COUNT + i) mod 2 = 1")
  case False
  then have "snd c1 = tickAlienFlash (ROW1_ENEMY_COUNT + i) (snd cs)"
    using assms by (auto simp add: row2Body_def Let_def)
  then show ?thesis
    using False formation_tickAlienFlash[of "ROW1_ENEMY_COUNT + i" "snd cs"] by (simp add: touch2_def)
next
  case True
  then obtain c where
    c: "drawnAlien F (ROW1_ENEMY_COUNT + i) (row2X F (snd cs) i) (row2Y F (snd cs)) cs = Continue c"
    and c1: "snd c1 = tickAlienFlash (ROW1_ENEMY_COUNT + i) (snd c)"
    using assms by (auto simp add: row2Body_def Let_def split: flow.splits)
  show ?thesis
    using formation_drawnAlien[OF c] formation_tickAlienFlash[of "ROW1_ENEMY_COUNT + i" "snd c"] True
    by (simp add: c1 touch2_def)
qed










section \<open>Which alien shoots\<close>

lemma alienSweep_slots: "alienSweep F cs = forEach (slotBody F) [0..<ENEMY_COUNT] cs"
proof -
  have l9: "[0..<9] = [0, 1, 2, 3, 4, 5, 6, 7, 8::nat]" by (simp add: upt_rec)
  have l5: "[0..<5] = [0, 1, 2, 3, 4::nat]" by (simp add: upt_rec)
  have l4: "[0..<4] = [0, 1, 2, 3::nat]" by (simp add: upt_rec)
  show ?thesis
    by (simp add: alienSweep_def slotBody_def l9 l5 l4 split: flow.splits)
qed

lemma slotBody_formation:
  assumes "slotBody F k cs = Continue c1"
  shows "enemyX (snd c1) = enemyX (snd cs)
    \<and> (\<forall>m. m \<noteq> k \<longrightarrow> enemyAlive (snd c1) ! m = enemyAlive (snd cs) ! m)
    \<and> course (snd c1)
        = (if touches F (snd cs) k then course (bounce F (snd cs)) else course (snd cs))"
proof (cases "k < ROW1_ENEMY_COUNT")
  case True
  then have b: "row1Body F k cs = Continue c1" using assms by (simp add: slotBody_def)
  show ?thesis
    using formation_row1Body[OF b] True
    by (simp add: touches_def touch1_def isDrawn_def slotX_def)
next
  case False
  then have b: "row2Body F (k - ROW1_ENEMY_COUNT) cs = Continue c1"
    using assms by (simp add: slotBody_def)
  show ?thesis
    using formation_row2Body[OF b] False
    by (simp add: touches_def touch2_def isDrawn_def slotX_def)
qed

lemma guarded_pool:
  fixes v :: uint8_t
  assumes "(case (if v mod 2 = 1 then drawnAlien F k x y cs else Continue cs) of
          Return r \<Rightarrow> Return r
        | Continue cs' \<Rightarrow> Continue (fst cs', tickAlienFlash k (snd cs'))) = Continue c1"
  shows "fst c1 = (if v mod 2 = 1 then fst cs - 1 else fst cs)
    \<and> enemyPool (snd c1) = (if v mod 2 = 1 \<and> fst cs = 0
          then enemyPool (enemyFire x y (snd cs)) else enemyPool (snd cs))"
proof (cases "v mod 2 = 1")
  case False
  then show ?thesis using assms by (auto simp add: enemyPool_tickAlienFlash)
next
  case True
  then obtain c where c: "drawnAlien F k x y cs = Continue c"
    and c1: "c1 = (fst c, tickAlienFlash k (snd c))"
    using assms by (auto split: flow.splits)
  show ?thesis using drawnAlien_pool[OF c] True by (simp add: c1 enemyPool_tickAlienFlash)
qed

lemma slotBody_pool:
  assumes "slotBody F k cs = Continue c1"
  shows "fst c1 = (if isDrawn (snd cs) k then fst cs - 1 else fst cs)
    \<and> enemyPool (snd c1)
       = (if isDrawn (snd cs) k \<and> fst cs = 0
          then enemyPool (enemyFire (slotX F (snd cs) k) (slotY F (snd cs) k) (snd cs))
          else enemyPool (snd cs))"
proof (cases "k < ROW1_ENEMY_COUNT")
  case True
  then have b: "row1Body F k cs = Continue c1" using assms by (simp add: slotBody_def)
  show ?thesis
    using guarded_pool[OF b[unfolded row1Body_def]] True
    by (simp add: isDrawn_def slotX_def slotY_def)
next
  case False
  then have b: "row2Body F (k - ROW1_ENEMY_COUNT) cs = Continue c1"
    using assms by (simp add: slotBody_def)
  have k: "ROW1_ENEMY_COUNT + (k - ROW1_ENEMY_COUNT) = k" using False by simp
  show ?thesis
    using guarded_pool[OF b[unfolded row2Body_def Let_def k]] False
    by (simp add: isDrawn_def slotX_def slotY_def)
qed

lemma exactShot_shotFrom:
  assumes "exactShot F k s s'"
  shows "shotFrom F k s s'"
proof -
  have "oneShot s s'" using assms unfolding exactShot_def by (rule oneShot_enemyFire)
  moreover have "enemyBulletX s' = (enemyBulletX s)[unat (currEnemyBulletId s)
                          := word_of_int (slotX F s k + ALIEN_WIDTH div 2)]"
    using assms by (simp add: exactShot_def enemyPool_def enemyFire_def)
  ultimately show ?thesis by (simp add: shotFrom_def)
qed

lemma slot_cong:
  assumes "enemyX s1 = enemyX s"
  shows "slotX F s1 k = slotX F s k"
  by (simp add: slotX_def row1X_def row2X_def assms)

lemma slotY_cong:
  assumes "course s1 = course s"
  shows "slotY F s1 k = slotY F s k"
  using assms by (simp add: slotY_def row1Y_def row2Y_def course_def)

lemma shot_cong:
  assumes "enemyPool s1 = enemyPool s" "enemyX s1 = enemyX s"
  shows "noShot s1 s' = noShot s s'" "shotFrom F k s1 s' = shotFrom F k s s'"
    "course s1 = course s \<Longrightarrow> exactShot F k s1 s' = exactShot F k s s'"
proof -
  have p: "enemyBulletX s1 = enemyBulletX s" "enemyBulletY s1 = enemyBulletY s"
    "currEnemyBulletId s1 = currEnemyBulletId s"
    using assms(1) by (simp_all add: enemyPool_def)
  show "noShot s1 s' = noShot s s'" by (simp add: noShot_def assms(1))
  show "shotFrom F k s1 s' = shotFrom F k s s'"
    by (simp add: shotFrom_def oneShot_def p slot_cong[OF assms(2)])
  show "exactShot F k s1 s' = exactShot F k s s'" if "course s1 = course s"
    by (simp add: exactShot_def enemyPool_def enemyFire_def p slot_cong[OF assms(2)] slotY_cong[OF that])
qed

lemma drawn_cong:
  assumes "\<And>m. m \<in> set ks \<Longrightarrow> enemyAlive s1 ! m = enemyAlive s ! m" "enemyX s1 = enemyX s"
  shows "filter (isDrawn s1) ks = filter (isDrawn s) ks"
    "(\<forall>k\<in>set ks. \<not> touches F s1 k) = (\<forall>k\<in>set ks. \<not> touches F s k)"
proof -
  have d: "isDrawn s1 m = isDrawn s m" if "m \<in> set ks" for m
    using assms(1)[OF that] by (simp add: isDrawn_def)
  then show "filter (isDrawn s1) ks = filter (isDrawn s) ks"
    by (intro filter_cong) simp_all
  have "touches F s1 m = touches F s m" if "m \<in> set ks" for m
    using d[OF that] by (simp add: touches_def slot_cong[OF assms(2)])
  then show "(\<forall>k\<in>set ks. \<not> touches F s1 k) = (\<forall>k\<in>set ks. \<not> touches F s k)" by simp
qed

lemma firer_in_sweep:
  assumes "forEach (slotBody F) ks cs = Continue cs'" "distinct ks"
  shows "fst cs' = fst cs - int (length (filter (isDrawn (snd cs)) ks))
    \<and> sweepShot F ks cs (snd cs')"
  using assms
proof (induction ks arbitrary: cs)
  case Nil
  then show ?case by (simp add: sweepShot_def noShot_def)
next
  case (Cons k ks)
  from Cons.prems(1) obtain c1 where
    c1: "slotBody F k cs = Continue c1" and rest: "forEach (slotBody F) ks c1 = Continue cs'"
    by (auto split: flow.splits)
  from Cons.prems(2) have fresh: "k \<notin> set ks" and dist: "distinct ks" by simp_all
  note fm = slotBody_formation[OF c1]
  note pl = slotBody_pool[OF c1]
  note IH = Cons.IH[OF rest dist]
  have x: "enemyX (snd c1) = enemyX (snd cs)" using fm by simp
  have al: "enemyAlive (snd c1) ! m = enemyAlive (snd cs) ! m" if "m \<in> set ks" for m
    using fm that fresh by auto
  note dc = drawn_cong[OF al x]
  define D where "D = filter (isDrawn (snd cs)) ks"
  have D1: "filter (isDrawn (snd c1)) ks = D" using dc(1) by (simp add: D_def)
  have cnt: "fst cs' = fst c1 - int (length D)" using IH D1 by simp
  have tail: "sweepShot F ks c1 (snd cs')" using IH by simp
  show ?case
  proof (cases "isDrawn (snd cs) k")
    case False
    then have c: "fst c1 = fst cs" and p: "enemyPool (snd c1) = enemyPool (snd cs)"
      using pl by simp_all
    have co: "course (snd c1) = course (snd cs)" using fm False by (simp add: touches_def)
    have DD: "filter (isDrawn (snd cs)) (k # ks) = D" using False by (simp add: D_def)
    have nt: "(\<forall>m\<in>set (k # ks). \<not> touches F (snd cs) m) = (\<forall>m\<in>set ks. \<not> touches F (snd c1) m)"
      using dc(2) False by (simp add: touches_def)
    have e: "noShot (snd c1) (snd cs') = noShot (snd cs) (snd cs')"
      "\<And>m. shotFrom F m (snd c1) (snd cs') = shotFrom F m (snd cs) (snd cs')"
      "\<And>m. exactShot F m (snd c1) (snd cs') = exactShot F m (snd cs) (snd cs')"
      by (simp_all add: shot_cong(1,2)[OF p x] shot_cong(3)[OF p x co])
    have "sweepShot F (k # ks) cs (snd cs')"
      using tail unfolding sweepShot_def DD D1 c nt e by (rule iffD1[OF refl])
    then show ?thesis unfolding DD using cnt c by simp
  next
    case True
    then have c: "fst c1 = fst cs - 1" using pl by simp
    have DD: "filter (isDrawn (snd cs)) (k # ks) = k # D" using True by (simp add: D_def)
    have "sweepShot F (k # ks) cs (snd cs')"
    proof (cases "fst cs = 0")
      case True
      then have "enemyPool (snd c1)
          = enemyPool (enemyFire (slotX F (snd cs) k) (slotY F (snd cs) k) (snd cs))"
        using pl \<open>isDrawn (snd cs) k\<close> by simp
      moreover have "noShot (snd c1) (snd cs')"
        using tail c True by (simp add: sweepShot_def)
      ultimately have "exactShot F k (snd cs) (snd cs')"
        by (simp add: exactShot_def noShot_def)
      then have "shotFrom F k (snd cs) (snd cs') \<and> exactShot F k (snd cs) (snd cs')"
        using exactShot_shotFrom by blast
      then show ?thesis
        unfolding sweepShot_def DD using True by simp
    next
      case False
      then have p: "enemyPool (snd c1) = enemyPool (snd cs)" using pl by simp
      show ?thesis
      proof (cases "0 < fst cs \<and> nat (fst cs) < length (k # D)")
        case True
        then have i: "0 \<le> fst c1 \<and> nat (fst c1) < length D" using c by auto
        have n: "(k # D) ! nat (fst cs) = D ! nat (fst c1)"
          using True c by (simp add: nth_Cons' nat_diff_distrib)
        have sf: "shotFrom F (D ! nat (fst c1)) (snd c1) (snd cs')"
          and ex: "(\<forall>m\<in>set ks. \<not> touches F (snd c1) m) \<longrightarrow>
                exactShot F (D ! nat (fst c1)) (snd c1) (snd cs')"
          using tail i by (simp_all add: sweepShot_def D1)
        have 1: "shotFrom F (D ! nat (fst c1)) (snd cs) (snd cs')"
          using sf by (simp add: shot_cong(2)[OF p x])
        have 2: "exactShot F (D ! nat (fst c1)) (snd cs) (snd cs')"
          if nt: "\<forall>m\<in>set (k # ks). \<not> touches F (snd cs) m"
        proof -
          have co: "course (snd c1) = course (snd cs)" using fm nt by simp
          have "\<forall>m\<in>set ks. \<not> touches F (snd c1) m" using nt dc(2) by simp
          then show ?thesis using ex by (simp add: shot_cong(3)[OF p x co])
        qed
        show ?thesis unfolding sweepShot_def DD using True 1 2 by (simp add: n)
      next
        case out: False
        then have "\<not> (0 \<le> fst c1 \<and> nat (fst c1) < length D)" using c False by auto
        then have "noShot (snd c1) (snd cs')" using tail by (simp add: sweepShot_def D1)
        then have "noShot (snd cs) (snd cs')" by (simp add: shot_cong(1)[OF p x])
        moreover have "\<not> (0 \<le> fst cs \<and> nat (fst cs) < length (k # D))"
          using out False by auto
        ultimately show ?thesis unfolding sweepShot_def DD by auto
      qed
    qed
    then show ?thesis unfolding DD using cnt c by simp
  qed
qed

lemma no_touches:
  assumes "edgeTouches F s = 0"
  shows "\<forall>k\<in>set [0..<ENEMY_COUNT]. \<not> touches F s k"
proof -
  from assms have e1: "filter (touch1 F s) [0..<ROW1_ENEMY_COUNT] = []"
    and e2: "filter (touch2 F s) [0..<ROW2_ENEMY_COUNT] = []"
    by (simp_all add: edgeTouches_def)
  have 1: "\<not> touch1 F s i" if "i < ROW1_ENEMY_COUNT" for i
    using e1 that by (simp add: filter_empty_conv)
  have 2: "\<not> touch2 F s i" if "i < ROW2_ENEMY_COUNT" for i
    using e2 that by (simp add: filter_empty_conv)
  have "\<not> touches F s k" if "k < ENEMY_COUNT" for k
  proof (cases "k < ROW1_ENEMY_COUNT")
    case True
    then show ?thesis using 1[of k] by (simp add: touches_def touch1_def isDrawn_def slotX_def)
  next
    case False
    then have "k - ROW1_ENEMY_COUNT < ROW2_ENEMY_COUNT" using that by simp
    then show ?thesis
      using 2[of "k - ROW1_ENEMY_COUNT"] False
      by (simp add: touches_def touch2_def isDrawn_def slotX_def)
  qed
  then show ?thesis by simp
qed

lemma drawn_count:
  assumes "\<forall>v\<in>set vs. 0 < v \<longrightarrow> v mod 2 = 1"
  shows "length (filter (\<lambda>k. vs ! k mod 2 = 1) [0..<length vs]) = aliveCount vs"
proof -
  have "filter (\<lambda>v. v mod 2 = 1) vs = filter (\<lambda>v. 0 < v) vs"
    using assms odd_alive by (intro filter_cong) auto
  moreover have "map (\<lambda>k. vs ! k) (filter (\<lambda>k. vs ! k mod 2 = 1) [0..<length vs])
      = filter (\<lambda>v. v mod 2 = 1) (map (\<lambda>k. vs ! k) [0..<length vs])"
    by (simp add: filter_map comp_def)
  ultimately have "length (filter (\<lambda>k. vs ! k mod 2 = 1) [0..<length vs])
      = length (filter (\<lambda>v. 0 < v) vs)"
    by (metis length_map map_nth)
  then show ?thesis by (simp add: aliveCount_def)
qed

text \<open>
  C5, as the code has it. The counter is compared and decremented within the block of a
  drawn alien, so it counts the drawn aliens, those of odd vitality, and not the aliens of
  a vitality above 0. When an ordinal is drawn (the cooldown reaches 0 with aliens
  remaining) it is \<^verbatim>\<open>rand() % enemyRemaining\<close>; in a sweep that runs to its end, if there are
  more drawn aliens than the ordinal, the one shot of the sweep comes from the alien that
  is the (ordinal+1)-th drawn alien in the order of the sweep (its x, and when no alien
  touches an edge in this sweep also its y, are those of that alien). When every remaining
  alien is drawn, every ordinal below \<^verbatim>\<open>enemyRemaining\<close> selects an alien.
\<close>

theorem firer_is_nth_drawn:
  assumes "enemyBulletWait s = 1" "0 < enemyRemaining s"
    "alienSweep F (selectFirer inp s) = Continue cs'"
  shows "fst (selectFirer inp s) = int (rnd inp mod unat (enemyRemaining s))
    \<and> (rnd inp mod unat (enemyRemaining s) < length (drawnSlots s) \<longrightarrow>
         shotFrom F (drawnSlots s ! (rnd inp mod unat (enemyRemaining s))) s (snd cs')
         \<and> (edgeTouches F s = 0 \<longrightarrow>
              exactShot F (drawnSlots s ! (rnd inp mod unat (enemyRemaining s))) s (snd cs')))
    \<and> (length (enemyAlive s) = ENEMY_COUNT
        \<and> unat (enemyRemaining s) = aliveCount (enemyAlive s)
        \<and> (\<forall>v\<in>set (enemyAlive s). 0 < v \<longrightarrow> v mod 2 = 1) \<longrightarrow>
          rnd inp mod unat (enemyRemaining s) < length (drawnSlots s))"
proof -
  define n where "n = rnd inp mod unat (enemyRemaining s)"
  define s0 where "s0 = snd (selectFirer inp s)"
  have "fst (selectFirer inp s) = int (rnd inp) mod uint (enemyRemaining s)"
    using assms(1,2) by (simp add: selectFirer_def Let_def)
  also have "\<dots> = int (rnd inp) mod int (unat (enemyRemaining s))"
    by (simp only: uint_nat)
  also have "\<dots> = int n" by (simp only: n_def zmod_int)
  finally have c: "fst (selectFirer inp s) = int n" .
  have same: "enemyPool s0 = enemyPool s" "enemyX s0 = enemyX s" "enemyAlive s0 = enemyAlive s"
    "course s0 = course s"
    by (simp_all add: s0_def selectFirer_def Let_def enemyPool_def course_def)
  have "selectFirer inp s = (int n, s0)"
    using c by (simp add: s0_def prod_eq_iff)
  then have sweep: "forEach (slotBody F) [0..<ENEMY_COUNT] (int n, s0) = Continue cs'"
    using assms(3) alienSweep_slots[of F "selectFirer inp s"] by simp
  have dist: "distinct [0..<ENEMY_COUNT::nat]" by simp
  have "isDrawn s0 = isDrawn s" by (rule ext) (simp add: isDrawn_def same(3))
  then have d: "filter (isDrawn s0) [0..<ENEMY_COUNT] = drawnSlots s"
    by (simp add: drawnSlots_def)
  have sh: "if n < length (drawnSlots s)
      then shotFrom F (drawnSlots s ! n) s0 (snd cs')
           \<and> ((\<forall>k\<in>set [0..<ENEMY_COUNT]. \<not> touches F s0 k) \<longrightarrow>
                exactShot F (drawnSlots s ! n) s0 (snd cs'))
      else noShot s0 (snd cs')"
    using firer_in_sweep[OF sweep dist] d by (auto simp add: sweepShot_def split: if_splits)
  have fire: "shotFrom F (drawnSlots s ! n) s (snd cs')
         \<and> (edgeTouches F s = 0 \<longrightarrow> exactShot F (drawnSlots s ! n) s (snd cs'))"
    if lt: "n < length (drawnSlots s)"
  proof -
    have a: "shotFrom F (drawnSlots s ! n) s0 (snd cs')"
      and b: "(\<forall>k\<in>set [0..<ENEMY_COUNT]. \<not> touches F s0 k) \<longrightarrow>
                exactShot F (drawnSlots s ! n) s0 (snd cs')"
      using sh lt by simp_all
    have t: "touches F s0 k = touches F s k" for k
      by (simp add: touches_def isDrawn_def same(3) slot_cong[OF same(2)])
    have 1: "shotFrom F (drawnSlots s ! n) s (snd cs')"
      using a by (simp add: shot_cong(2)[OF same(1,2)])
    have 2: "exactShot F (drawnSlots s ! n) s (snd cs')" if "edgeTouches F s = 0"
      using b no_touches[OF that] t by (simp add: shot_cong(3)[OF same(1,2,4)])
    show ?thesis using 1 2 by simp
  qed
  have all: "n < length (drawnSlots s)"
    if "length (enemyAlive s) = ENEMY_COUNT" "unat (enemyRemaining s) = aliveCount (enemyAlive s)"
      "\<forall>v\<in>set (enemyAlive s). 0 < v \<longrightarrow> v mod 2 = 1"
  proof -
    have "isDrawn s = (\<lambda>k. enemyAlive s ! k mod 2 = 1)"
      by (rule ext) (simp add: isDrawn_def)
    then have "length (drawnSlots s) = aliveCount (enemyAlive s)"
      using drawn_count[OF that(3)] that(1) by (simp add: drawnSlots_def)
    moreover have "0 < unat (enemyRemaining s)" using assms(2) by (simp add: word_less_nat_alt)
    ultimately show ?thesis using that(2) by (simp add: n_def)
  qed
  show ?thesis using c fire all unfolding n_def by blast
qed

theorem firer_is_nth_drawn_witness:
  "enemyBulletWait readyToFire = 1 \<and> 0 < enemyRemaining readyToFire
   \<and> (\<exists>cs'. alienSweep exact (selectFirer (idle\<lparr>rnd := 3\<rparr>) readyToFire) = Continue cs'
         \<and> fst (selectFirer (idle\<lparr>rnd := 3\<rparr>) readyToFire) = 3
         \<and> exactShot exact 3 readyToFire (snd cs'))"
proof -
  have w: "enemyBulletWait readyToFire = 1" and r: "0 < enemyRemaining readyToFire"
    by (simp_all add: readyToFire_def gameReset_def)
  have "case alienSweep exact (selectFirer (idle\<lparr>rnd := 3\<rparr>) readyToFire) of
          Return r \<Rightarrow> False | Continue cs \<Rightarrow> True"
    by code_simp
  then obtain cs' where
    c: "alienSweep exact (selectFirer (idle\<lparr>rnd := 3\<rparr>) readyToFire) = Continue cs'"
    by (auto split: flow.splits)
  have n: "rnd (idle\<lparr>rnd := 3\<rparr>) mod unat (enemyRemaining readyToFire) = 3" by code_simp
  have d: "drawnSlots readyToFire ! 3 = 3" "3 < length (drawnSlots readyToFire)" by code_simp+
  have e: "edgeTouches exact readyToFire = 0" by code_simp
  have "fst (selectFirer (idle\<lparr>rnd := 3\<rparr>) readyToFire) = 3
    \<and> exactShot exact 3 readyToFire (snd cs')"
    using firer_is_nth_drawn[OF w r c] d e unfolding n by simp
  then show ?thesis using w r c by blast
qed

text \<open>
  C5, as stated, fails in \<open>flashingOff\<close>, the state that the game \<open>replay\<close> reaches from
  reset, where all nine aliens have a vitality above 0 and alien 6, at vitality 4, is not
  drawn. The ordinal 8 is below \<^verbatim>\<open>enemyRemaining\<close> = 9 and no alien shoots in the tick, which
  runs to its end: the cursor stays at 8 and the slot under it stays empty. With the
  ordinal 6 the seventh alien of a vitality above 0 is alien 6, at x = 59, and the bullet,
  at x = 77 + 4, comes from alien 7.
\<close>

theorem firer_is_nth_alive_counterexample:
  "run exact replay (gameReset exact) = flashingOff
   \<and> enemyBulletWait flashingOff = 1 \<and> enemyRemaining flashingOff = 9
   \<and> enemyAlive flashingOff = [7, 7, 7, 7, 7, 7, 4, 7, 7]
   \<and> currEnemyBulletId flashingOff = 8 \<and> enemyBulletX flashingOff ! 8 = 0
   \<and> fst (selectFirer (idle\<lparr>rnd := 8\<rparr>) flashingOff) = 8
   \<and> gameLoopFlow exact (idle\<lparr>rnd := 8\<rparr>) flashingOff
       = Continue (gameLoop exact (idle\<lparr>rnd := 8\<rparr>) flashingOff)
   \<and> currEnemyBulletId (gameLoop exact (idle\<lparr>rnd := 8\<rparr>) flashingOff) = 8
   \<and> enemyBulletX (gameLoop exact (idle\<lparr>rnd := 8\<rparr>) flashingOff) ! 8 = 0
   \<and> fst (selectFirer (idle\<lparr>rnd := 6\<rparr>) flashingOff) = 6
   \<and> slotX exact flashingOff 6 = 59 \<and> slotX exact flashingOff 7 = 77
   \<and> currEnemyBulletId (gameLoop exact (idle\<lparr>rnd := 6\<rparr>) flashingOff) = 9
   \<and> enemyBulletX (gameLoop exact (idle\<lparr>rnd := 6\<rparr>) flashingOff) ! 8 = 77 + 4"
proof -
  have "enemyBulletWait flashingOff = 1 \<and> enemyRemaining flashingOff = 9
   \<and> enemyAlive flashingOff = [7, 7, 7, 7, 7, 7, 4, 7, 7]
   \<and> currEnemyBulletId flashingOff = 8 \<and> enemyBulletX flashingOff ! 8 = 0
   \<and> fst (selectFirer (idle\<lparr>rnd := 8\<rparr>) flashingOff) = 8
   \<and> gameLoopFlow exact (idle\<lparr>rnd := 8\<rparr>) flashingOff
       = Continue (gameLoop exact (idle\<lparr>rnd := 8\<rparr>) flashingOff)
   \<and> currEnemyBulletId (gameLoop exact (idle\<lparr>rnd := 8\<rparr>) flashingOff) = 8
   \<and> enemyBulletX (gameLoop exact (idle\<lparr>rnd := 8\<rparr>) flashingOff) ! 8 = 0
   \<and> fst (selectFirer (idle\<lparr>rnd := 6\<rparr>) flashingOff) = 6
   \<and> slotX exact flashingOff 6 = 59 \<and> slotX exact flashingOff 7 = 77
   \<and> currEnemyBulletId (gameLoop exact (idle\<lparr>rnd := 6\<rparr>) flashingOff) = 9
   \<and> enemyBulletX (gameLoop exact (idle\<lparr>rnd := 6\<rparr>) flashingOff) ! 8 = 77 + 4"
    by code_simp
  then show ?thesis using flashingOff_reached by simp
qed

section \<open>The vitality of the ship and of a dying alien\<close>

text \<open>
  For the ship the countdown cannot restart: in a tick that runs to its end, a vitality
  strictly between 0 and \<^verbatim>\<open>ALIVE\<close> is one less afterwards, unless it was 1 with lives to spare,
  when a life is lost and the ship is \<^verbatim>\<open>ALIVE\<close> again (or already hit again).
\<close>

lemma ship_after_sweep:
  assumes "alienSweep F cs = Continue cs'"
  shows "shipAlive (snd cs') = shipAlive (snd cs) \<and> lives (snd cs') = lives (snd cs)"
proof -
  define P where "P = (\<lambda>t :: 'a game. shipAlive t = shipAlive (snd cs) \<and> lives t = lives (snd cs))"
  have hit: "P (checkAlienHit k x y t)" if "P t" for k x y t
    unfolding checkAlienHit_def
    by (rule fold_preserves[where P = P, OF _ that]) (simp add: P_def hitBullet_def)
  have drawn: "P (snd c1)" if "P (snd c)" "drawnAlien F k x y c = Continue c1" for k x y c c1
  proof -
    have "P (if touchesEdge x then bounce F (if fst c = 0 then enemyFire x y (snd c) else snd c)
             else (if fst c = 0 then enemyFire x y (snd c) else snd c))"
      using that(1) by (simp add: P_def bounce_def enemyFire_def)
    then show ?thesis
      using that(2) hit by (auto simp add: drawnAlien_def Let_def split: if_splits)
  qed
  have flash: "P (tickAlienFlash k t)" if "P t" for k t
    using that by (simp add: P_def tickAlienFlash_def Let_def)
  have b1: "P (snd c1)" if p: "P (snd c)" and b: "row1Body F i c = Continue c1" for i c c1
  proof (cases "enemyAlive (snd c) ! i mod 2 = 1")
    case False
    then show ?thesis using p b flash by (auto simp add: row1Body_def)
  next
    case True
    then obtain c0 where c0: "drawnAlien F i (row1X F (snd c) i) (row1Y F (snd c)) c = Continue c0"
      and e: "c1 = (fst c0, tickAlienFlash i (snd c0))"
      using b by (auto simp add: row1Body_def split: flow.splits)
    show ?thesis using flash[OF drawn[OF p c0]] by (simp add: e)
  qed
  have b2: "P (snd c1)" if p: "P (snd c)" and b: "row2Body F i c = Continue c1" for i c c1
  proof (cases "enemyAlive (snd c) ! (ROW1_ENEMY_COUNT + i) mod 2 = 1")
    case False
    then show ?thesis using p b flash by (auto simp add: row2Body_def Let_def)
  next
    case True
    then obtain c0 where
      c0: "drawnAlien F (ROW1_ENEMY_COUNT + i) (row2X F (snd c) i) (row2Y F (snd c)) c = Continue c0"
      and e: "c1 = (fst c0, tickAlienFlash (ROW1_ENEMY_COUNT + i) (snd c0))"
      using b by (auto simp add: row2Body_def Let_def split: flow.splits)
    show ?thesis using flash[OF drawn[OF p c0]] by (simp add: e)
  qed
  from assms obtain c1 where
    r1: "forEach (row1Body F) [0..<ROW1_ENEMY_COUNT] cs = Continue c1" and
    r2: "forEach (row2Body F) [0..<ROW2_ENEMY_COUNT] c1 = Continue cs'"
    by (auto simp add: alienSweep_def split: flow.splits)
  have "P (snd cs)" by (simp add: P_def)
  then have "P (snd c1)"
    by (rule forEach_Continue[OF r1, where P = "\<lambda>c. P (snd c)"]) (use b1 in blast)
  then have "P (snd cs')"
    by (rule forEach_Continue[OF r2, where P = "\<lambda>c. P (snd c)"]) (use b2 in blast)
  then show ?thesis by (simp add: P_def)
qed

lemma ship_after_bullets:
  "lives (advanceEnemyBullets (advancePlayerBullets (moveFormation F s))) = lives s
   \<and> (shipAlive (advanceEnemyBullets (advancePlayerBullets (moveFormation F s))) = shipAlive s
      \<or> shipAlive s = ALIVE
        \<and> shipAlive (advanceEnemyBullets (advancePlayerBullets (moveFormation F s))) = START_DYING)"
proof -
  define P where "P = (\<lambda>t :: 'a game. lives t = lives s \<and> shipAlive t = shipAlive s)"
  define Q where "Q = (\<lambda>t :: 'a game. lives t = lives s
      \<and> (shipAlive t = shipAlive s \<or> shipAlive s = ALIVE \<and> shipAlive t = START_DYING))"
  have 0: "P (moveFormation F s)" by (simp add: P_def moveFormation_def)
  have 1: "P (advancePlayerBullets (moveFormation F s))"
    unfolding advancePlayerBullets_def
    by (rule fold_preserves[where P = P, OF _ 0]) (simp add: P_def playerBulletStep_def Let_def)
  then have 2: "Q (advancePlayerBullets (moveFormation F s))" by (simp add: P_def Q_def)
  have "Q (advanceEnemyBullets (advancePlayerBullets (moveFormation F s)))"
    unfolding advanceEnemyBullets_def
    by (rule fold_preserves[where P = Q, OF _ 2]) (auto simp add: Q_def enemyBulletStep_def Let_def)
  then show ?thesis by (simp add: Q_def)
qed

lemma ship_vitality_decreases:
  assumes "0 < shipAlive s" "shipAlive s < ALIVE" "gameLoopFlow F inp s = Continue s'"
  shows "shipAlive s' = shipAlive s - 1 \<and> shipAlive s' < shipAlive s
    \<or> shipAlive s = 1 \<and> 1 < lives s \<and> lives s' = lives s - 1
      \<and> (shipAlive s' = ALIVE \<or> shipAlive s' = START_DYING)"
proof -
  from assms(3) obtain s3 cs where
    s3: "tickShipFlash F (playerFire inp (moveShip inp s)) = Continue s3" and
    cs: "alienSweep F (selectFirer inp s3) = Continue cs" and
    s': "s' = advanceEnemyBullets (advancePlayerBullets (moveFormation F (snd cs)))"
    by (auto simp add: gameLoopFlow_def split: flow.splits dest: checkWin_Continue)
  define s2 where "s2 = playerFire inp (moveShip inp s)"
  have s2: "shipAlive s2 = shipAlive s" "lives s2 = lives s"
    by (simp_all add: s2_def playerFire_def fireBullet_def moveShip_def Let_def)
  have dec: "shipAlive s - 1 < shipAlive s" "shipAlive s - 1 < ALIVE"
    using assms(1,2) by (simp_all add: word_less_nat_alt unat_minus_one unat_gt_0)
  have flash: "shipAlive s3 = shipAlive s - 1 \<and> shipAlive s - 1 \<noteq> 0 \<and> lives s3 = lives s
      \<or> shipAlive s = 1 \<and> 1 < lives s \<and> lives s3 = lives s - 1 \<and> shipAlive s3 = ALIVE"
    using s3[folded s2_def] s2 assms(1,2)
    by (auto simp add: tickShipFlash_def Let_def split: if_splits)
  have sel: "shipAlive (snd (selectFirer inp s3)) = shipAlive s3"
    "lives (snd (selectFirer inp s3)) = lives s3"
    by (simp_all add: selectFirer_def Let_def)
  have sw: "shipAlive (snd cs) = shipAlive s3" "lives (snd cs) = lives s3"
    using ship_after_sweep[OF cs] sel by simp_all
  note b = ship_after_bullets[of F "snd cs", folded s']
  from flash show ?thesis
  proof
    assume a: "shipAlive s3 = shipAlive s - 1 \<and> shipAlive s - 1 \<noteq> 0 \<and> lives s3 = lives s"
    then have "shipAlive (snd cs) \<noteq> ALIVE" using sw dec(2) by auto
    then have "shipAlive s' = shipAlive s - 1" using b sw a by auto
    then show ?thesis using dec(1) by simp
  next
    assume a: "shipAlive s = 1 \<and> 1 < lives s \<and> lives s3 = lives s - 1 \<and> shipAlive s3 = ALIVE"
    then show ?thesis using b sw by auto
  qed
qed

text \<open>
  C3 fails for the aliens. The ship starts to die only when it is \<^verbatim>\<open>ALIVE\<close> (line 643); an
  alien that is hit is set to \<^verbatim>\<open>START_DYING\<close> whatever its vitality (lines 477 and 549). In
  \<open>secondHit\<close>, which the game \<open>replay\<close> followed by one idle tick reaches from reset, alien 6
  has the vitality 3 and a bullet within its box; the next tick, which runs to its end
  without reset, leaves it with the vitality 5.
\<close>

theorem alien_vitality_restarts:
  "run exact (replay @ [idle]) (gameReset exact) = secondHit
   \<and> enemyAlive secondHit ! 6 = 3
   \<and> inAlienBox (row2X exact secondHit 1) (row2Y exact secondHit)
        (bulletX secondHit ! 1) (bulletY secondHit ! 1)
   \<and> gameLoopFlow exact idle secondHit = Continue (gameLoop exact idle secondHit)
   \<and> lives (gameLoop exact idle secondHit) = lives secondHit
   \<and> enemyAlive (gameLoop exact idle secondHit) ! 6 = 5"
proof -
  have "run exact (replay @ [idle]) (gameReset exact) = secondHit"
    by (simp add: run_append flashingOff_reached secondHit_reached)
  moreover have "enemyAlive secondHit ! 6 = 3
   \<and> inAlienBox (row2X exact secondHit 1) (row2Y exact secondHit)
        (bulletX secondHit ! 1) (bulletY secondHit ! 1)
   \<and> gameLoopFlow exact idle secondHit = Continue (gameLoop exact idle secondHit)
   \<and> lives (gameLoop exact idle secondHit) = lives secondHit
   \<and> enemyAlive (gameLoop exact idle secondHit) ! 6 = 5"
    by code_simp
  ultimately show ?thesis by simp
qed

end
